theory Spec2Isabelle
  imports Complex_Main "HOL-Library.Log_Nat"
begin

section \<open>Enum string parsers (context_enum_classes.cpp)\<close>

text \<open>
  The enum classes themselves are declared in \<^verbatim>\<open>context_enum_classes.h\<close>; the
  constructors below are the variants the parsers and printers of
  \<^verbatim>\<open>context_enum_classes.cpp\<close> name.
\<close>

datatype Mode =
  Mode_recursive_bipartitioning | Mode_direct | Mode_deep_multilevel | Mode_UNDEFINED

datatype Objective =
  Objective_cut | Objective_km1 | Objective_soed | Objective_process_mapping | Objective_UNDEFINED

datatype ContextType = ContextType_main | ContextType_initial_partitioning

datatype AcceptancePolicy =
  AcceptancePolicy_best | AcceptancePolicy_best_prefer_unmatched | AcceptancePolicy_UNDEFINED

text \<open>
  How a call of a value-returning C++ function ends: it executes a \<^verbatim>\<open>return\<close>
  statement, or control reaches the closing brace without one (no value is assigned to
  the result; undefined behaviour in C++), or the program is ended inside the call.
\<close>

datatype 'a outcome = Returns 'a | FallsOffEnd | Terminates

text \<open>
  The macro \<^verbatim>\<open>ERR\<close> of \<^verbatim>\<open>mt-kahypar/macros.h\<close> is not among the sources. It reports
  its message; whether control then returns to the statement after it is the parameter
  \<open>err_returns\<close> of every parser. \<open>ERR err_returns msg rest\<close> is the error output
  and the outcome of \<^verbatim>\<open>ERR(msg); rest\<close>.
\<close>

definition ERR :: "bool \<Rightarrow> string \<Rightarrow> 'a outcome \<Rightarrow> string list \<times> 'a outcome" where
  "ERR err_returns msg rest = ([msg], if err_returns then rest else Terminates)"

text \<open>
  Modelled from the spec: the spec says that an unknown enum string is "reported
  immediately with a short message" and that the acceptance-criterion parser "returns
  without assigning a value on the error branch", so on the spec's reading control
  continues after \<^verbatim>\<open>ERR\<close>.
\<close>

definition ERR_returns_by_spec :: bool where
  "ERR_returns_by_spec = True"

text \<open>
  Every parser returns the error output it produced together with its outcome.
\<close>

definition modeFromString :: "bool \<Rightarrow> string \<Rightarrow> string list \<times> Mode outcome" where
  "modeFromString err_returns mode =
     (if mode = ''rb'' then ([], Returns Mode_recursive_bipartitioning)
      else if mode = ''direct'' then ([], Returns Mode_direct)
      else if mode = ''deep'' then ([], Returns Mode_deep_multilevel)
      else ERR err_returns (''Illegal option: '' @ mode) (Returns Mode_UNDEFINED))"

text \<open>
  \<^verbatim>\<open>experimental\<close> is the compile-time switch \<^verbatim>\<open>KAHYPAR_ENABLE_EXPERIMENTAL_FEATURES\<close>.
  The error branch ends with the \<^verbatim>\<open>ERR\<close> line: there is no \<^verbatim>\<open>return\<close> after it.
\<close>

definition acceptanceCriterionFromString ::
  "bool \<Rightarrow> bool \<Rightarrow> string \<Rightarrow> string list \<times> AcceptancePolicy outcome" where
  "acceptanceCriterionFromString err_returns experimental crit =
     (if crit = ''best_prefer_unmatched'' then ([], Returns AcceptancePolicy_best_prefer_unmatched)
      else if experimental \<and> crit = ''best'' then ([], Returns AcceptancePolicy_best)
      else ERR err_returns ''No valid acceptance criterion for rating.'' FallsOffEnd)"

section \<open>Clustering (the header stored after context_enum_classes.cpp in the same source file)\<close>

text \<open>
  A \<^verbatim>\<open>Clustering\<close> is a \<^verbatim>\<open>std::vector<PartitionID>\<close>: an \<open>int list\<close>. Indexing a
  vector outside its bounds is undefined behaviour in C++; the model reports it as
  \<open>OutOfBounds\<close>. A failing \<^verbatim>\<open>assert\<close> (builds without \<^verbatim>\<open>NDEBUG\<close>) aborts the
  program: \<open>AssertionFailed\<close>.
\<close>

datatype compactify_error = OutOfBounds | AssertionFailed

definition in_bounds :: "'a list \<Rightarrow> int \<Rightarrow> bool" where
  "in_bounds v i = (0 \<le> i \<and> i < int (length v))"

text \<open>
  \<^verbatim>\<open>sequentialCompactify\<close>: one pass over the vector; \<open>mapping\<close> starts as
  \<open>upperIDBound + 1\<close> entries \<open>-1\<close>, \<open>i\<close> counts the clusters met so far. The loop
  returns the relabelled vector and the final \<open>i\<close>.
\<close>

fun sequentialCompactify_loop ::
  "int list \<Rightarrow> int \<Rightarrow> int list \<Rightarrow> compactify_error + (int list \<times> int)" where
  "sequentialCompactify_loop mapping i [] = Inr ([], i)"
| "sequentialCompactify_loop mapping i (c # rest) =
     (if \<not> in_bounds mapping c then Inl OutOfBounds
      else
        let (mapping', i') =
              (if mapping ! nat c = - 1 then (mapping[nat c := i], i + 1) else (mapping, i))
        in case sequentialCompactify_loop mapping' i' rest of
             Inl e \<Rightarrow> Inl e
           | Inr (rest', n) \<Rightarrow> Inr (mapping' ! nat c # rest', n))"

definition sequentialCompactify :: "int list \<Rightarrow> int \<Rightarrow> compactify_error + (int list \<times> int)" where
  "sequentialCompactify clustering upperIDBound =
     sequentialCompactify_loop (replicate (nat (upperIDBound + 1)) (- 1)) 0 clustering"

text \<open>
  Modelled from the spec: \<^verbatim>\<open>PrefixSum::parallelTwoPhase\<close> (\<^verbatim>\<open>parallel_prefix_sum.h\<close>) is
  not among the sources, and the spec only calls it "a parallel prefix sum over that
  bitmap". Both readings are given, each with the neutral element as start value: the
  inclusive one (entry \<open>j\<close> is the sum of entries \<open>0..j\<close>) and the exclusive one
  (entry \<open>j\<close> is the sum of entries \<open>0..j-1\<close>). \<^verbatim>\<open>parallelCompactify\<close> takes the
  prefix sum as a parameter.
\<close>

fun inclusive_scan :: "int \<Rightarrow> int list \<Rightarrow> int list" where
  "inclusive_scan acc [] = []"
| "inclusive_scan acc (x # xs) = (acc + x) # inclusive_scan (acc + x) xs"

fun exclusive_scan :: "int \<Rightarrow> int list \<Rightarrow> int list" where
  "exclusive_scan acc [] = []"
| "exclusive_scan acc (x # xs) = acc # exclusive_scan (acc + x) xs"

text \<open>The first \<^verbatim>\<open>parallel_for_each\<close>: \<^verbatim>\<open>mapping[c] = 1\<close> for every entry \<open>c\<close>.\<close>

fun mark_present :: "int list \<Rightarrow> int list \<Rightarrow> compactify_error + int list" where
  "mark_present mapping [] = Inr mapping"
| "mark_present mapping (c # rest) =
     (if \<not> in_bounds mapping c then Inl OutOfBounds
      else mark_present (mapping[nat c := 1]) rest)"

text \<open>
  \<^verbatim>\<open>parallelCompactify\<close>. \<open>ndebug\<close> is the compile-time switch \<^verbatim>\<open>NDEBUG\<close>: without
  it the function compares its result with that of \<^verbatim>\<open>sequentialCompactify\<close> on a copy
  and asserts that the cluster count and every entry agree. \<^verbatim>\<open>mapping.back()\<close> on an
  empty vector is undefined behaviour.
\<close>

definition parallelCompactify ::
  "bool \<Rightarrow> (int \<Rightarrow> int list \<Rightarrow> int list) \<Rightarrow> int list \<Rightarrow> int \<Rightarrow> nat \<Rightarrow>
   compactify_error + (int list \<times> int)" where
  "parallelCompactify ndebug prefix_sum clustering upperIDBound numTasks =
     (case mark_present (replicate (nat (upperIDBound + 1)) 0) clustering of
        Inl e \<Rightarrow> Inl e
      | Inr bitmap \<Rightarrow>
          let mapping = prefix_sum 0 bitmap;
              relabelled = map (\<lambda>c. mapping ! nat c) clustering
          in if mapping = [] then Inl OutOfBounds
             else if \<not> ndebug \<and>
                     sequentialCompactify clustering upperIDBound \<noteq> Inr (relabelled, last mapping)
             then Inl AssertionFailed
             else Inr (relabelled, last mapping))"

definition compactify ::
  "bool \<Rightarrow> (int \<Rightarrow> int list \<Rightarrow> int list) \<Rightarrow> int list \<Rightarrow> int \<Rightarrow> nat \<Rightarrow>
   compactify_error + (int list \<times> int)" where
  "compactify ndebug prefix_sum clustering upperIDBound numTasks =
     (let upperIDBound' =
            (if upperIDBound < 0 then int (length clustering) - 1 else upperIDBound)
      in if numTasks > 1 then parallelCompactify ndebug prefix_sum clustering upperIDBound' numTasks
         else sequentialCompactify clustering upperIDBound')"

section \<open>ProcessGraph::index (process_graph.h)\<close>

text \<open>
  \<^verbatim>\<open>PartitionID\<close> is \<^verbatim>\<open>int32_t\<close> and \<^verbatim>\<open>size_t\<close> is the unsigned 64-bit type. A
  machine integer is modelled as an \<open>int\<close>, and every operation that can leave the
  range of its type is followed by the wrap-around into that range: \<open>int32_t\<close> is
  the two's-complement value of the low 32 bits, \<open>size_t\<close> the value of the low 64
  bits. (Overflow of a signed operation is undefined behaviour in C++; the wrap-around is
  what the machine instruction yields.)
\<close>

definition int32_t :: "int \<Rightarrow> int" where
  "int32_t x = (x + 2 ^ 31) mod 2 ^ 32 - 2 ^ 31"

definition size_t :: "int \<Rightarrow> int" where
  "size_t x = x mod 2 ^ 64"

definition kInvalidPartition :: int where
  "kInvalidPartition = - 1"

text \<open>
  \<^verbatim>\<open>index(const ds::StaticBitset& connectivity_set)\<close>. The function reads its
  argument only through the range-based \<^verbatim>\<open>for\<close> loop, so the connectivity set is
  given as the list of blocks that loop yields. \<open>index_loop\<close> is the loop over the
  state \<open>(index, multiplier, last_block)\<close>, and \<open>k\<close> is the member \<^verbatim>\<open>_k\<close>.
  \<^verbatim>\<open>multiplier\<close>, \<^verbatim>\<open>block\<close> and \<^verbatim>\<open>_k\<close> are \<^verbatim>\<open>PartitionID\<close>s, so the products
  \<^verbatim>\<open>multiplier * block\<close>, \<^verbatim>\<open>multiplier * _k\<close> and \<^verbatim>\<open>last_block * _k\<close> are 32-bit
  products; they are converted to \<^verbatim>\<open>size_t\<close> when added to \<^verbatim>\<open>index\<close>.
\<close>

fun index_loop :: "int \<Rightarrow> int list \<Rightarrow> int \<times> int \<times> int \<Rightarrow> int \<times> int \<times> int" where
  "index_loop k [] (index, multiplier, last_block) = (index, multiplier, last_block)"
| "index_loop k (block # rest) (index, multiplier, last_block) =
     index_loop k rest
       (size_t (index + int32_t (multiplier * block)), int32_t (multiplier * k), block)"

definition ProcessGraph_index :: "int \<Rightarrow> int list \<Rightarrow> int" where
  "ProcessGraph_index k connectivity_set =
     (case index_loop k connectivity_set (0, 1, kInvalidPartition) of
        (index, multiplier, last_block) \<Rightarrow>
          size_t (index + (if multiplier = k then int32_t (last_block * k) else 0)))"

text \<open>
  A non-empty connectivity set over \<open>k\<close> blocks, listed in increasing order:
  \<open>c\<^sub>0 < c\<^sub>1 < ... < c\<^sub>r\<^sub>-\<^sub>1\<close> with every member in \<open>0..k-1\<close>.
\<close>

definition connectivity_set_of :: "int \<Rightarrow> int list \<Rightarrow> bool" where
  "connectivity_set_of k cs =
     (cs \<noteq> [] \<and> sorted cs \<and> distinct cs \<and> list_all (\<lambda>c. 0 \<le> c \<and> c < k) cs)"

text \<open>The spec's encoding, the sum of \<open>c\<^sub>i * k ^ i\<close>, of a list of members.\<close>

definition mixed_radix :: "int \<Rightarrow> int list \<Rightarrow> int" where
  "mixed_radix k cs = (\<Sum>i<length cs. cs ! i * k ^ i)"

text \<open>
  A singleton \<open>{c}\<close> is encoded like the two digits \<open>(c, c)\<close>: \<open>c + c * k\<close>.
\<close>

definition singleton_doubled :: "int list \<Rightarrow> int list" where
  "singleton_doubled cs = (if length cs = 1 then cs @ cs else cs)"

section \<open>Recursive bipartitioning (recursive_bipartitioning.cpp)\<close>

subsection \<open>C++ arithmetic\<close>

text \<open>
  \<^verbatim>\<open>PartitionID\<close> and \<^verbatim>\<open>HypernodeWeight\<close> are \<^verbatim>\<open>int32_t\<close>. Integer division and
  remainder truncate towards zero in C++.
\<close>

definition cpp_div :: "int \<Rightarrow> int \<Rightarrow> int" where
  "cpp_div a b = sgn a * sgn b * (\<bar>a\<bar> div \<bar>b\<bar>)"

definition cpp_mod :: "int \<Rightarrow> int \<Rightarrow> int" where
  "cpp_mod a b = a - b * cpp_div a b"

text \<open>
  Reading \<^verbatim>\<open>v[i]\<close> of a \<^verbatim>\<open>std::vector\<close>. Outside the bounds the read is undefined
  behaviour; the model yields 0 there, and the theorems that depend on a read assume it
  in range.
\<close>

definition vec_at :: "int list \<Rightarrow> int \<Rightarrow> int" where
  "vec_at v i = (if 0 \<le> i \<and> i < int (length v) then v ! nat i else 0)"

subsection \<open>IEEE 754 binary64 arithmetic\<close>

text \<open>
  A \<^verbatim>\<open>double\<close> is a binary64 number: a finite value \<open>m * 2 ^ e\<close> with
  \<open>\<bar>m\<bar> < 2 ^ 53\<close> and \<open>- 1074 \<le> e\<close>, a negative zero, an infinity or a NaN. Every
  arithmetic operation yields the exact result rounded to the nearest such value, ties
  to the even significand (the default rounding mode).

  \<open>round_ties_to_even\<close> rounds a real to the nearest integer, \<open>binade x\<close> is the
  exponent \<open>e\<close> with \<open>2 ^ e \<le> \<bar>x\<bar> < 2 ^ (e + 1)\<close>, \<open>ulp_exponent x\<close> the exponent
  of the unit in the last place of the doubles around \<open>x\<close> (subnormal below
  \<open>2 ^ - 1022\<close>), and \<open>round_to_double x\<close> the multiple of that unit nearest to
  \<open>x\<close>.
\<close>

definition round_ties_to_even :: "real \<Rightarrow> int" where
  "round_ties_to_even x =
     (let f = \<lfloor>x\<rfloor>
      in if x - of_int f < 1 / 2 then f
         else if 1 / 2 < x - of_int f then f + 1
         else if even f then f else f + 1)"

definition binade :: "real \<Rightarrow> int" where
  "binade x = (if 1 \<le> \<bar>x\<bar> then bitlen \<lfloor>\<bar>x\<bar>\<rfloor> - 1 else - bitlen (\<lceil>1 / \<bar>x\<bar>\<rceil> - 1))"

definition ulp_exponent :: "real \<Rightarrow> int" where
  "ulp_exponent x = max (binade x) (- 1022) - 52"

definition round_to_double :: "real \<Rightarrow> real" where
  "round_to_double x =
     (if x = 0 then 0
      else of_int (round_ties_to_even (x / 2 powi ulp_exponent x)) * 2 powi ulp_exponent x)"

text \<open>\<open>Finite 0\<close> is the positive zero.\<close>

datatype double = Finite real | NegZero | PlusInfinity | MinusInfinity | NaN

fun value_of :: "double \<Rightarrow> real" where
  "value_of (Finite r) = r"
| "value_of d = 0"

fun sign_bit :: "double \<Rightarrow> bool" where
  "sign_bit (Finite r) = (r < 0)"
| "sign_bit NegZero = True"
| "sign_bit MinusInfinity = True"
| "sign_bit d = False"

fun is_infinite :: "double \<Rightarrow> bool" where
  "is_infinite PlusInfinity = True"
| "is_infinite MinusInfinity = True"
| "is_infinite d = False"

fun is_zero :: "double \<Rightarrow> bool" where
  "is_zero (Finite r) = (r = 0)"
| "is_zero NegZero = True"
| "is_zero d = False"

definition signed_infinity :: "bool \<Rightarrow> double" where
  "signed_infinity negative = (if negative then MinusInfinity else PlusInfinity)"

definition signed_zero :: "bool \<Rightarrow> double" where
  "signed_zero negative = (if negative then NegZero else Finite 0)"

text \<open>
  The double delivered for the exact result \<open>x\<close>: the rounded value, an infinity when
  that is beyond the largest double, and the zero of sign \<open>negative\<close> when it is 0.
\<close>

definition to_double :: "bool \<Rightarrow> real \<Rightarrow> double" where
  "to_double negative x =
     (let r = round_to_double x
      in if 2 ^ 1024 \<le> \<bar>r\<bar> then signed_infinity (r < 0)
         else if r = 0 then signed_zero negative
         else Finite r)"

text \<open>A literal such as \<^verbatim>\<open>0.99\<close>, and the conversion of an integer to \<^verbatim>\<open>double\<close>.\<close>

definition double_literal :: "real \<Rightarrow> double" where
  "double_literal x = to_double False x"

definition int_to_double :: "int \<Rightarrow> double" where
  "int_to_double i = to_double False (of_int i)"

text \<open>
  A sum that is exactly zero is the negative zero only when both summands are negative;
  a sum of two doubles that is not zero is a multiple of \<open>2 ^ - 1074\<close> and does not
  round to zero.
\<close>

definition double_add :: "double \<Rightarrow> double \<Rightarrow> double" where
  "double_add a b =
     (if a = NaN \<or> b = NaN then NaN
      else if is_infinite a then (if is_infinite b \<and> a \<noteq> b then NaN else a)
      else if is_infinite b then b
      else if value_of a + value_of b = 0 then signed_zero (sign_bit a \<and> sign_bit b)
      else to_double False (value_of a + value_of b))"

fun double_neg :: "double \<Rightarrow> double" where
  "double_neg (Finite r) = (if r = 0 then NegZero else Finite (- r))"
| "double_neg NegZero = Finite 0"
| "double_neg PlusInfinity = MinusInfinity"
| "double_neg MinusInfinity = PlusInfinity"
| "double_neg NaN = NaN"

definition double_sub :: "double \<Rightarrow> double \<Rightarrow> double" where
  "double_sub a b = double_add a (double_neg b)"

definition double_mul :: "double \<Rightarrow> double \<Rightarrow> double" where
  "double_mul a b =
     (if a = NaN \<or> b = NaN then NaN
      else if is_infinite a \<or> is_infinite b
      then (if is_zero a \<or> is_zero b then NaN else signed_infinity (sign_bit a \<noteq> sign_bit b))
      else to_double (sign_bit a \<noteq> sign_bit b) (value_of a * value_of b))"

definition double_div :: "double \<Rightarrow> double \<Rightarrow> double" where
  "double_div a b =
     (if a = NaN \<or> b = NaN then NaN
      else if is_infinite a then (if is_infinite b then NaN else signed_infinity (sign_bit a \<noteq> sign_bit b))
      else if is_infinite b then signed_zero (sign_bit a \<noteq> sign_bit b)
      else if is_zero b then (if is_zero a then NaN else signed_infinity (sign_bit a \<noteq> sign_bit b))
      else to_double (sign_bit a \<noteq> sign_bit b) (value_of a / value_of b))"

text \<open>\<^verbatim>\<open>a < b\<close> on doubles: false when either side is a NaN, and the two zeros are equal.\<close>

fun double_less :: "double \<Rightarrow> double \<Rightarrow> bool" where
  "double_less NaN b = False"
| "double_less a NaN = False"
| "double_less PlusInfinity b = False"
| "double_less a MinusInfinity = False"
| "double_less MinusInfinity b = True"
| "double_less a PlusInfinity = True"
| "double_less a b = (value_of a < value_of b)"

text \<open>
  \<^verbatim>\<open>std::min(a, b)\<close> is \<^verbatim>\<open>(b < a) ? b : a\<close> and \<^verbatim>\<open>std::max(a, b)\<close> is
  \<^verbatim>\<open>(a < b) ? b : a\<close>.
\<close>

definition std_min :: "double \<Rightarrow> double \<Rightarrow> double" where
  "std_min a b = (if double_less b a then b else a)"

definition std_max :: "double \<Rightarrow> double \<Rightarrow> double" where
  "std_max a b = (if double_less a b then b else a)"

text \<open>
  \<^verbatim>\<open>ceil\<close> and \<^verbatim>\<open>round\<close> are exact: the result is an integer-valued double of the sign
  of the argument. \<^verbatim>\<open>round\<close> rounds half-way cases away from zero.
\<close>

fun std_ceil :: "double \<Rightarrow> double" where
  "std_ceil (Finite r) = (if \<lceil>r\<rceil> = 0 \<and> r < 0 then NegZero else Finite (of_int \<lceil>r\<rceil>))"
| "std_ceil d = d"

definition round_half_away_from_zero :: "real \<Rightarrow> int" where
  "round_half_away_from_zero x = (if 0 \<le> x then \<lfloor>x + 1 / 2\<rfloor> else \<lceil>x - 1 / 2\<rceil>)"

fun std_round :: "double \<Rightarrow> double" where
  "std_round (Finite r) =
     (if round_half_away_from_zero r = 0 \<and> r < 0 then NegZero
      else Finite (of_int (round_half_away_from_zero r)))"
| "std_round d = d"

text \<open>
  A \<^verbatim>\<open>double\<close> stored into a \<^verbatim>\<open>HypernodeWeight\<close> is truncated towards zero. When the
  truncated value is outside the 32-bit range, or the double is an infinity or a NaN, the
  conversion is undefined behaviour; the model yields \<open>- 2 ^ 31\<close> there (the result of
  the x86-64 conversion instruction), and the theorems that depend on a conversion show
  it in range.
\<close>

definition truncate_towards_zero :: "real \<Rightarrow> int" where
  "truncate_towards_zero x = (if 0 \<le> x then \<lfloor>x\<rfloor> else \<lceil>x\<rceil>)"

fun double_to_int :: "double \<Rightarrow> int" where
  "double_to_int (Finite r) =
     (if - (2 ^ 31) \<le> truncate_towards_zero r \<and> truncate_towards_zero r < 2 ^ 31 then truncate_towards_zero r else - (2 ^ 31))"
| "double_to_int NegZero = 0"
| "double_to_int d = - (2 ^ 31)"

text \<open>
  \<^verbatim>\<open>std::pow\<close> and \<^verbatim>\<open>log2\<close> belong to the C mathematical library, which is not among
  the sources and whose accuracy the language standard does not fix. They are a
  parameter of every function that calls them.
\<close>

record Libm =
  std_pow :: "double \<Rightarrow> double \<Rightarrow> double"
  std_log2 :: "double \<Rightarrow> double"

text \<open>The spec's \<open>clamp(x, lo, hi)\<close>.\<close>

definition clamp :: "real \<Rightarrow> real \<Rightarrow> real \<Rightarrow> real" where
  "clamp x lo hi = (if x < lo then lo else if hi < x then hi else x)"

subsection \<open>Hypergraph, Context, OriginalHypergraphInfo\<close>

text \<open>
  Modelled from the spec: the hypergraph data structure is not among the sources. A
  hypergraph has \<open>n\<close> nodes \<open>0..n-1\<close> with weights and a list of hyperedges, each a
  list of pins with a weight; its total weight is the sum of the node weights.
\<close>

record Hypergraph =
  hg_node_weights :: "int list"
  hg_hyperedges :: "(nat list \<times> int) list"

definition initialNumNodes :: "Hypergraph \<Rightarrow> nat" where
  "initialNumNodes hg = length (hg_node_weights hg)"

definition totalWeight :: "Hypergraph \<Rightarrow> int" where
  "totalWeight hg = sum_list (hg_node_weights hg)"

text \<open>
  The fields of \<^verbatim>\<open>Context\<close> that recursive_bipartitioning.cpp reads or writes
  (\<^verbatim>\<open>context.partition.k\<close> is \<open>partition_k\<close>, and so on). The struct is declared in
  \<^verbatim>\<open>context.h\<close>, which is not among the sources; the part weights are vectors of
  \<^verbatim>\<open>HypernodeWeight\<close> (the code sums them into a \<^verbatim>\<open>HypernodeWeight\<close>, fills them with
  the integer 0 and rounds before storing in the individual-weights branch; the spec
  declares weights as signed integers). The degree of parallelism, a \<^verbatim>\<open>double\<close>, is
  only ever multiplied by the literals \<^verbatim>\<open>0.5\<close> and \<^verbatim>\<open>1.0\<close>, which is exact in
  binary64 above the subnormal range; it is kept as a real.
\<close>

record Context =
  partition_k :: int
  partition_epsilon :: double
  partition_objective :: Objective
  partition_mode :: Mode
  partition_verbose_output :: bool
  partition_use_individual_part_weights :: bool
  partition_perfect_balance_part_weights :: "int list"
  partition_max_part_weights :: "int list"
  initial_partitioning_mode :: Mode
  context_type :: ContextType
  shared_memory_degree_of_parallelism :: real
  preprocessing_stable_construction_of_incident_edges :: bool

record OriginalHypergraphInfo =
  original_hypergraph_weight :: int
  original_k :: int
  original_epsilon :: double

subsection \<open>computeAdaptiveEpsilon and setupBipartitioningContext\<close>

definition computeAdaptiveEpsilon ::
  "Libm \<Rightarrow> OriginalHypergraphInfo \<Rightarrow> int \<Rightarrow> int \<Rightarrow> double" where
  "computeAdaptiveEpsilon libm info current_hypergraph_weight current_k =
     (if current_hypergraph_weight = 0 then double_literal 0
      else
        let base =
              double_mul
                (double_div
                   (std_ceil (double_div (int_to_double (original_hypergraph_weight info))
                                         (int_to_double (original_k info))))
                   (std_ceil (double_div (int_to_double current_hypergraph_weight)
                                         (int_to_double current_k))))
                (double_add (double_literal 1) (original_epsilon info));
            adaptive_epsilon =
              std_min (double_literal (99 / 100))
                (std_max
                   (double_sub
                      (std_pow libm base
                         (double_div (double_literal 1)
                            (std_ceil (std_log2 libm (int_to_double current_k)))))
                      (double_literal 1))
                   (double_literal 0))
        in adaptive_epsilon)"

text \<open>
  \<^verbatim>\<open>std::accumulate(max_part_weights.cbegin(), max_part_weights.cend(), 0)\<close>: the sum
  is accumulated in an \<^verbatim>\<open>int\<close>.
\<close>

definition accumulate :: "int list \<Rightarrow> int" where
  "accumulate v = fold (\<lambda>x acc. int32_t (acc + x)) v 0"

text \<open>
  The two loops \<^verbatim>\<open>for (i = first; i < last; ++i) perfect_weight += ceil(weight_fraction *
  max_part_weights[i])\<close>; the sum is formed in \<^verbatim>\<open>double\<close> and converted back to
  \<^verbatim>\<open>HypernodeWeight\<close> in every round.
\<close>

definition sum_ceil_weights :: "double \<Rightarrow> int list \<Rightarrow> int \<Rightarrow> int \<Rightarrow> int" where
  "sum_ceil_weights weight_fraction max_part_weights first last_excl =
     fold (\<lambda>i perfect_weight.
             double_to_int
               (double_add (int_to_double perfect_weight)
                  (std_ceil (double_mul weight_fraction
                               (int_to_double (vec_at max_part_weights i))))))
          [first..last_excl - 1] 0"

text \<open>
  \<^verbatim>\<open>setupBipartitioningContext\<close>. Its last three statements call
  \<^verbatim>\<open>setupContractionLimit(total_weight)\<close>, \<^verbatim>\<open>setupSparsificationParameters()\<close> and
  \<^verbatim>\<open>setupThreadsPerFlowSearch()\<close> on the new context; these member functions are not
  among the sources, so their combined effect is the parameter
  \<open>setupDerivedParameters\<close>.
\<close>

definition setupBipartitioningContext ::
  "Libm \<Rightarrow> (int \<Rightarrow> Context \<Rightarrow> Context) \<Rightarrow> Hypergraph \<Rightarrow> Context \<Rightarrow> OriginalHypergraphInfo \<Rightarrow>
   Context" where
  "setupBipartitioningContext libm setupDerivedParameters hypergraph context info =
     (let b_context = context\<lparr>partition_k := 2, partition_verbose_output := False,
                               initial_partitioning_mode := Mode_direct\<rparr>;
          b_context = (if partition_mode context = Mode_direct
                       then b_context\<lparr>context_type := ContextType_initial_partitioning\<rparr>
                       else b_context);
          total_weight = totalWeight hypergraph;
          k = partition_k context;
          k0 = cpp_div k 2 + (if cpp_mod k 2 \<noteq> 0 then 1 else 0);
          k1 = cpp_div k 2;
          b_context =
            (if partition_use_individual_part_weights context then
               let max_part_weights_sum = accumulate (partition_max_part_weights context);
                   weight_fraction =
                     double_div (int_to_double total_weight) (int_to_double max_part_weights_sum);
                   perfect_weight_p0 =
                     sum_ceil_weights weight_fraction (partition_max_part_weights context) 0 k0;
                   perfect_weight_p1 =
                     sum_ceil_weights weight_fraction (partition_max_part_weights context) k0 k;
                   base = double_div (int_to_double max_part_weights_sum)
                            (int_to_double (int32_t (perfect_weight_p0 + perfect_weight_p1)));
                   epsilon =
                     (if total_weight = 0 then int_to_double 0
                      else std_min (double_literal (99 / 100))
                             (std_max
                                (double_sub
                                   (std_pow libm base
                                      (double_div (double_literal 1)
                                         (std_ceil (std_log2 libm (int_to_double k)))))
                                   (double_literal 1))
                                (double_literal 0)))
               in b_context\<lparr>partition_epsilon := epsilon,
                    partition_perfect_balance_part_weights := [perfect_weight_p0, perfect_weight_p1],
                    partition_max_part_weights :=
                      [double_to_int (std_round (double_mul (double_add (int_to_double 1) epsilon)
                                                            (int_to_double perfect_weight_p0))),
                       double_to_int (std_round (double_mul (double_add (int_to_double 1) epsilon)
                                                            (int_to_double perfect_weight_p1)))]\<rparr>
             else
               let epsilon = computeAdaptiveEpsilon libm info total_weight k;
                   perfect_0 =
                     double_to_int (std_ceil (double_mul (double_div (int_to_double k0) (int_to_double k))
                                                         (int_to_double total_weight)));
                   perfect_1 =
                     double_to_int (std_ceil (double_mul (double_div (int_to_double k1) (int_to_double k))
                                                         (int_to_double total_weight)))
               in b_context\<lparr>partition_epsilon := epsilon,
                    partition_perfect_balance_part_weights := [perfect_0, perfect_1],
                    partition_max_part_weights :=
                      [double_to_int (double_mul (double_add (int_to_double 1) epsilon)
                                                 (int_to_double perfect_0)),
                       double_to_int (double_mul (double_add (int_to_double 1) epsilon)
                                                 (int_to_double perfect_1))]\<rparr>)
      in setupDerivedParameters total_weight b_context)"

text \<open>
  What the theorems on the part weights assume of the three member functions that are
  not among the sources: they leave \<open>epsilon\<close> and the two part-weight vectors as
  \<^verbatim>\<open>setupBipartitioningContext\<close> set them.
\<close>

definition keeps_part_weights :: "(int \<Rightarrow> Context \<Rightarrow> Context) \<Rightarrow> bool" where
  "keeps_part_weights f =
     (\<forall>w c. partition_epsilon (f w c) = partition_epsilon c \<and>
            partition_perfect_balance_part_weights (f w c) = partition_perfect_balance_part_weights c \<and>
            partition_max_part_weights (f w c) = partition_max_part_weights c)"

definition setupRecursiveBipartitioningContext :: "Context \<Rightarrow> int \<Rightarrow> int \<Rightarrow> real \<Rightarrow> Context" where
  "setupRecursiveBipartitioningContext context k0 k1 degree_of_parallelism =
     (let rb_context = context\<lparr>partition_k := k1 - k0\<rparr>;
          rb_context = (if partition_mode context = Mode_direct
                        then rb_context\<lparr>context_type := ContextType_initial_partitioning\<rparr>
                        else rb_context)
      in rb_context\<lparr>
           partition_perfect_balance_part_weights :=
             map (vec_at (partition_perfect_balance_part_weights context)) [k0..k1 - 1],
           partition_max_part_weights :=
             map (vec_at (partition_max_part_weights context)) [k0..k1 - 1],
           shared_memory_degree_of_parallelism :=
             shared_memory_degree_of_parallelism context * degree_of_parallelism\<rparr>)"

subsection \<open>PartitionedHypergraph\<close>

text \<open>
  Modelled from the spec: the partitioned hypergraph (\<^verbatim>\<open>partitioned_hypergraph.h\<close>) is not
  among the sources. The state is the spec's tuple: the hypergraph, \<open>k\<close>, the block
  of every node (\<open>kInvalidPartition\<close> while unassigned), the weight and the size of
  every block and the pin count of every hyperedge in every block. A new structure has
  every node unassigned and all counters 0.
\<close>

definition kInvalidHypernode :: nat where
  "kInvalidHypernode = 4294967295"

record PartitionedHypergraph =
  phg_k :: int
  phg_hypergraph :: Hypergraph
  phg_part_ids :: "int list"
  phg_part_weights :: "int list"
  phg_part_sizes :: "int list"
  phg_pin_counts :: "int list list"

definition new_PartitionedHypergraph :: "int \<Rightarrow> Hypergraph \<Rightarrow> PartitionedHypergraph" where
  "new_PartitionedHypergraph k hg =
     \<lparr>phg_k = k, phg_hypergraph = hg,
      phg_part_ids = replicate (initialNumNodes hg) kInvalidPartition,
      phg_part_weights = replicate (nat k) 0,
      phg_part_sizes = replicate (nat k) 0,
      phg_pin_counts = replicate (length (hg_hyperedges hg)) (replicate (nat k) 0)\<rparr>"

text \<open>The invariant that the block array has one entry per node.\<close>

definition wf_phg :: "PartitionedHypergraph \<Rightarrow> bool" where
  "wf_phg phg = (length (phg_part_ids phg) = initialNumNodes (phg_hypergraph phg))"

definition partID :: "PartitionedHypergraph \<Rightarrow> nat \<Rightarrow> int" where
  "partID phg v = phg_part_ids phg ! v"

text \<open>
  Modelled from the spec: \<^verbatim>\<open>setOnlyNodePart(v, b)\<close> "sets part[v]=b" and "does not
  update derived state".
\<close>

definition setOnlyNodePart :: "nat \<Rightarrow> int \<Rightarrow> PartitionedHypergraph \<Rightarrow> PartitionedHypergraph" where
  "setOnlyNodePart v b phg = phg\<lparr>phg_part_ids := (phg_part_ids phg)[v := b]\<rparr>"

definition nodes_of_block :: "int list \<Rightarrow> int \<Rightarrow> nat list" where
  "nodes_of_block part_ids b = filter (\<lambda>v. part_ids ! v = b) [0..<length part_ids]"

text \<open>
  Modelled from the spec: \<^verbatim>\<open>initializePartition()\<close> "recomputes partWeight, partSize,
  pinCount from scratch" from the block array.
\<close>

definition initializePartition :: "PartitionedHypergraph \<Rightarrow> PartitionedHypergraph" where
  "initializePartition phg =
     (let hg = phg_hypergraph phg; part = phg_part_ids phg; blocks = map int [0..<nat (phg_k phg)]
      in phg\<lparr>phg_part_weights :=
                 map (\<lambda>b. sum_list (map (\<lambda>v. hg_node_weights hg ! v) (nodes_of_block part b))) blocks,
               phg_part_sizes := map (\<lambda>b. int (length (nodes_of_block part b))) blocks,
               phg_pin_counts :=
                 map (\<lambda>(pins, w). map (\<lambda>b. int (length (filter (\<lambda>v. part ! v = b) pins))) blocks)
                     (hg_hyperedges hg)\<rparr>)"

text \<open>A counter of block \<open>b\<close>; a block outside \<open>0..k-1\<close> has no counter.\<close>

definition add_at :: "int \<Rightarrow> int \<Rightarrow> int list \<Rightarrow> int list" where
  "add_at b d counters =
     (if 0 \<le> b \<and> b < int (length counters) then counters[nat b := counters ! nat b + d]
      else counters)"

text \<open>
  Modelled from the spec: \<^verbatim>\<open>changeNodePart(v, from, to)\<close> compares and swaps
  \<open>part[v]\<close> from \<open>from\<close> to \<open>to\<close> and returns \<open>false\<close> if that fails; on
  success it moves the node's weight and one unit of size from \<open>from\<close> to \<open>to\<close>
  and, for every hyperedge incident to \<open>v\<close>, one pin. The model is the sequential
  semantics of one call.
\<close>

definition changeNodePart ::
  "nat \<Rightarrow> int \<Rightarrow> int \<Rightarrow> PartitionedHypergraph \<Rightarrow> bool \<times> PartitionedHypergraph" where
  "changeNodePart v from to phg =
     (if v < length (phg_part_ids phg) \<and> phg_part_ids phg ! v = from then
        let w = hg_node_weights (phg_hypergraph phg) ! v
        in (True,
            phg\<lparr>phg_part_ids := (phg_part_ids phg)[v := to],
                phg_part_weights := add_at to w (add_at from (- w) (phg_part_weights phg)),
                phg_part_sizes := add_at to 1 (add_at from (- 1) (phg_part_sizes phg)),
                phg_pin_counts :=
                  map (\<lambda>((pins, ew), counts).
                         if v \<in> set pins then add_at to 1 (add_at from (- 1) counts) else counts)
                      (zip (hg_hyperedges (phg_hypergraph phg)) (phg_pin_counts phg))\<rparr>)
      else (False, phg))"

text \<open>
  Modelled from the spec: \<^verbatim>\<open>extract(block, cut_net_splitting, stable)\<close> "builds a
  sub-hypergraph containing only nodes with part[v]=block"; with cut-net splitting every
  hyperedge is restricted to its pins in the block and empty and single-pin nets are
  dropped, without it every hyperedge with a pin outside the block is dropped; the
  mapping sends a node of the block to its sub-node and every other node to a sentinel.
  Sub-nodes are numbered in the order of their parents. \<open>stable\<close> only fixes the
  order of incident edges, which this representation does not record.
\<close>

definition phg_extract ::
  "int \<Rightarrow> bool \<Rightarrow> bool \<Rightarrow> PartitionedHypergraph \<Rightarrow> Hypergraph \<times> nat list" where
  "phg_extract block cut_net_splitting stable_construction phg =
     (let hg = phg_hypergraph phg; part = phg_part_ids phg;
          in_block = (\<lambda>v. v < length part \<and> part ! v = block);
          mapping = map (\<lambda>v. if part ! v = block
                               then length (filter (\<lambda>u. part ! u = block) [0..<v])
                               else kInvalidHypernode)
                        [0..<length part];
          sub_edges =
            (if cut_net_splitting then
               filter (\<lambda>(pins, w). 2 \<le> length pins)
                 (map (\<lambda>(pins, w). (filter in_block pins, w)) (hg_hyperedges hg))
             else filter (\<lambda>(pins, w). list_all in_block pins) (hg_hyperedges hg))
      in (\<lparr>hg_node_weights = map (\<lambda>v. hg_node_weights hg ! v) (nodes_of_block part block),
           hg_hyperedges = map (\<lambda>(pins, w). (map (\<lambda>v. mapping ! v) pins, w)) sub_edges\<rparr>,
          mapping))"

subsection \<open>The driver\<close>

text \<open>
  The driver's calls are recorded as a trace next to the state. The trace of a call on a
  sub-problem is nested in the event of that call, so the events of one list are those
  on one partitioned hypergraph. \<open>Bisect\<close> is the call of the external
  \<^verbatim>\<open>multilevel::partition(hg, b_context)\<close>, \<open>RecursiveBipartitioning k hg c k0 k1\<close>
  the call of \<^verbatim>\<open>recursive_bipartitioning\<close> on a fresh \<^verbatim>\<open>PartitionedHypergraph(k, hg)\<close>
  with context \<open>c\<close>, \<open>RecursivelyBipartitionBlock block k0 k1 p\<close> the call of
  \<^verbatim>\<open>recursively_bipartition_block\<close> with degree-of-parallelism factor \<open>p\<close>, and
  \<open>TaskGroup\<close> a \<^verbatim>\<open>tbb::task_group\<close> with the traces of the tasks it ran and waited
  for.
\<close>

datatype event =
    Bisect Hypergraph Context
  | SetOnlyNodePart nat int
  | InitializePartition
  | Extract int bool bool
  | ChangeNodePart nat int int
  | RecursiveBipartitioning int Hypergraph Context int int "event list"
  | RecursivelyBipartitionBlock int int int real "event list"
  | TaskGroup "event list list"

text \<open>
  \<^verbatim>\<open>doParallelForAllNodes(f)\<close> applies \<open>f\<close> to every node; the model visits the
  nodes in increasing order. Both loop bodies of the driver touch only the node they are
  called on, so the state they produce does not depend on the order.
\<close>

definition doParallelForAllNodes ::
  "(nat \<Rightarrow> PartitionedHypergraph \<times> event list \<Rightarrow> PartitionedHypergraph \<times> event list) \<Rightarrow>
   PartitionedHypergraph \<times> event list \<Rightarrow> PartitionedHypergraph \<times> event list" where
  "doParallelForAllNodes f s = fold f [0..<initialNumNodes (phg_hypergraph (fst s))] s"

text \<open>
  The loop body of \<^verbatim>\<open>recursive_bipartitioning\<close> (lines 207-216) and that of
  \<^verbatim>\<open>recursively_bipartition_block\<close> (lines 266-275). The \<^verbatim>\<open>ASSERT\<close>s of the driver
  are debug checks and compile to nothing in a release build; they are not modelled.
\<close>

definition assign_bisection ::
  "(nat \<Rightarrow> int) \<Rightarrow> int \<Rightarrow> int \<Rightarrow> nat \<Rightarrow> PartitionedHypergraph \<times> event list \<Rightarrow>
   PartitionedHypergraph \<times> event list" where
  "assign_bisection bipartitioned_hg_partID block_0 block_1 hn s =
     (let part_id = bipartitioned_hg_partID hn
      in if part_id = 0
         then (setOnlyNodePart hn block_0 (fst s), snd s @ [SetOnlyNodePart hn block_0])
         else (setOnlyNodePart hn block_1 (fst s), snd s @ [SetOnlyNodePart hn block_1]))"

definition apply_block_partition ::
  "PartitionedHypergraph \<Rightarrow> nat list \<Rightarrow> int \<Rightarrow> nat \<Rightarrow> PartitionedHypergraph \<times> event list \<Rightarrow>
   PartitionedHypergraph \<times> event list" where
  "apply_block_partition rb_phg mapping block hn s =
     (if partID (fst s) hn = block then
        let to = block + partID rb_phg (mapping ! hn)
        in if block \<noteq> to
           then (snd (changeNodePart hn block to (fst s)), snd s @ [ChangeNodePart hn block to])
           else s
      else s)"

text \<open>Facts on the two halves of \<open>k\<close>, needed for the termination of the driver.\<close>

lemma cpp_div_2: "0 \<le> k \<Longrightarrow> cpp_div k 2 = k div 2"
  by (cases "k = 0") (simp_all add: cpp_div_def)

lemma cpp_mod_2: "0 \<le> k \<Longrightarrow> cpp_mod k 2 = k mod 2"
  by (simp add: cpp_mod_def cpp_div_2 minus_mult_div_eq_mod)

lemma cpp_div_2_neg: "k < 0 \<Longrightarrow> cpp_div k 2 = - (\<bar>k\<bar> div 2)"
  by (simp add: cpp_div_def)

lemma rb_k0_less:
  assumes "2 \<le> cpp_div k 2 + cpp_mod k 2"
  shows "0 \<le> k \<and> cpp_div k 2 + cpp_mod k 2 < k"
proof (cases "0 \<le> k")
  case True
  with assms have "2 \<le> k div 2 + k mod 2" by (simp add: cpp_div_2 cpp_mod_2)
  then have "k div 2 + k mod 2 < k" by presburger
  with True show ?thesis by (simp add: cpp_div_2 cpp_mod_2)
next
  case False
  then have "k < 0" by simp
  then have "cpp_div k 2 + cpp_mod k 2 = k + \<bar>k\<bar> div 2"
    by (simp add: cpp_mod_def cpp_div_2_neg)
  with assms \<open>k < 0\<close> have False by presburger
  then show ?thesis ..
qed

lemma rb_k1_less:
  assumes "2 \<le> cpp_div k 2"
  shows "0 \<le> k \<and> cpp_div k 2 < k"
proof (cases "0 \<le> k")
  case True
  with assms have "2 \<le> k div 2" by (simp add: cpp_div_2)
  then have "k div 2 < k" by presburger
  with True show ?thesis by (simp add: cpp_div_2)
next
  case False
  then have "k < 0" by simp
  with assms have False by (simp add: cpp_div_2_neg)
  then show ?thesis ..
qed

lemma rb_k0_measure:
  "2 \<le> cpp_div k 2 + cpp_mod k 2 \<Longrightarrow> Suc (2 * nat (cpp_div k 2 + cpp_mod k 2)) < 2 * nat k"
  using rb_k0_less [of k] by arith

lemma rb_k1_measure:
  "2 \<le> cpp_div k 2 \<Longrightarrow> Suc (2 * nat (cpp_div k 2)) < 2 * nat k"
  using rb_k1_less [of k] by arith

lemma setupRecursiveBipartitioningContext_k:
  "partition_k (setupRecursiveBipartitioningContext c k0 k1 d) = k1 - k0"
  by (simp add: setupRecursiveBipartitioningContext_def Let_def)

text \<open>
  \<^verbatim>\<open>recursive_bipartitioning\<close> (lines 194-245) and \<^verbatim>\<open>recursively_bipartition_block\<close>
  (lines 248-277). \<open>libm\<close> is the mathematical library that
  \<^verbatim>\<open>setupBipartitioningContext\<close> calls, and \<open>multilevel_partition hg b_context\<close> is the external bisection
  \<^verbatim>\<open>multilevel::partition(hg, b_context)\<close>, given by the block it assigns to every
  node. Both functions return the partitioned hypergraph they were called on and the
  trace of their calls. The two tasks of the task group work on different blocks of the
  same partitioned hypergraph; the model runs the first, then the second. The recursion
  terminates because the block count of the context at least halves in every round.
\<close>

function (sequential) recursive_bipartitioning ::
  "Libm \<Rightarrow> (Hypergraph \<Rightarrow> Context \<Rightarrow> nat \<Rightarrow> int) \<Rightarrow> (int \<Rightarrow> Context \<Rightarrow> Context) \<Rightarrow>
   PartitionedHypergraph \<Rightarrow> Context \<Rightarrow> int \<Rightarrow> int \<Rightarrow> OriginalHypergraphInfo \<Rightarrow>
   PartitionedHypergraph \<times> event list"
and recursively_bipartition_block ::
  "Libm \<Rightarrow> (Hypergraph \<Rightarrow> Context \<Rightarrow> nat \<Rightarrow> int) \<Rightarrow> (int \<Rightarrow> Context \<Rightarrow> Context) \<Rightarrow>
   PartitionedHypergraph \<Rightarrow> Context \<Rightarrow> int \<Rightarrow> int \<Rightarrow> int \<Rightarrow> OriginalHypergraphInfo \<Rightarrow> real \<Rightarrow>
   PartitionedHypergraph \<times> event list"
where
  "recursive_bipartitioning libm multilevel_partition setupDerivedParameters phg context k0 k1 info =
     (let hg = phg_hypergraph phg;
          b_context = setupBipartitioningContext libm setupDerivedParameters hg context info;
          bipartitioned_hg = multilevel_partition hg b_context;
          k = k1 - k0;
          block_0 = 0;
          block_1 = cpp_div k 2 + cpp_mod k 2;
          s = doParallelForAllNodes (assign_bisection bipartitioned_hg block_0 block_1)
                (phg, [Bisect hg b_context]);
          s = (initializePartition (fst s), snd s @ [InitializePartition]);
          rb_k0 = cpp_div (partition_k context) 2 + cpp_mod (partition_k context) 2;
          rb_k1 = cpp_div (partition_k context) 2
      in if rb_k0 \<ge> 2 \<and> rb_k1 \<ge> 2 then
           let r0 = recursively_bipartition_block libm multilevel_partition setupDerivedParameters
                      (fst s) context block_0 0 rb_k0 info (1 / 2);
               r1 = recursively_bipartition_block libm multilevel_partition setupDerivedParameters
                      (fst r0) context block_1 rb_k0 (rb_k0 + rb_k1) info (1 / 2)
           in (fst r1,
               snd s @ [TaskGroup [[RecursivelyBipartitionBlock block_0 0 rb_k0 (1 / 2) (snd r0)],
                                   [RecursivelyBipartitionBlock block_1 rb_k0 (rb_k0 + rb_k1) (1 / 2) (snd r1)]]])
         else if rb_k0 \<ge> 2 then
           let r0 = recursively_bipartition_block libm multilevel_partition setupDerivedParameters
                      (fst s) context block_0 0 rb_k0 info 1
           in (fst r0, snd s @ [RecursivelyBipartitionBlock block_0 0 rb_k0 1 (snd r0)])
         else s)"
| "recursively_bipartition_block libm multilevel_partition setupDerivedParameters phg context block k0 k1 info
     degree_of_parallism =
     (let rb_context = setupRecursiveBipartitioningContext context k0 k1 degree_of_parallism;
          cut_net_splitting = (partition_objective context = Objective_km1);
          copy_hypergraph = phg_extract block cut_net_splitting
                              (preprocessing_stable_construction_of_incident_edges context) phg;
          rb_hg = fst copy_hypergraph;
          mapping = snd copy_hypergraph;
          events = [Extract block cut_net_splitting
                      (preprocessing_stable_construction_of_incident_edges context)]
      in if initialNumNodes rb_hg > 0 then
           let rb_phg = new_PartitionedHypergraph (partition_k rb_context) rb_hg;
               r = recursive_bipartitioning libm multilevel_partition setupDerivedParameters
                     rb_phg rb_context k0 k1 info
           in doParallelForAllNodes (apply_block_partition (fst r) mapping block)
                (phg, events @ [RecursiveBipartitioning (partition_k rb_context) rb_hg rb_context k0 k1 (snd r)])
         else (phg, events))"
  by pat_completeness auto
termination
  apply (relation "measure (\<lambda>x. case x of
            Inl (_, _, _, _, c, _, _, _) \<Rightarrow> 2 * nat (partition_k c)
          | Inr (_, _, _, _, _, _, k0, k1, _, _) \<Rightarrow> 2 * nat (k1 - k0) + 1)")
  subgoal by simp
  subgoal by (simp add: rb_k0_measure)
  subgoal by (simp add: rb_k1_measure)
  subgoal by (simp add: rb_k0_measure)
  subgoal by (simp add: setupRecursiveBipartitioningContext_k)
  done

declare recursive_bipartitioning.simps [simp del] recursively_bipartition_block.simps [simp del]

subsection \<open>Concrete inputs\<close>

definition example_hypergraph :: Hypergraph where
  "example_hypergraph = \<lparr>hg_node_weights = [1, 1], hg_hyperedges = [([0, 1], 1)]\<rparr>"

definition example_context :: Context where
  "example_context =
     \<lparr>partition_k = 2, partition_epsilon = Finite (1 / 2), partition_objective = Objective_km1,
      partition_mode = Mode_recursive_bipartitioning, partition_verbose_output = True,
      partition_use_individual_part_weights = False,
      partition_perfect_balance_part_weights = [1, 1], partition_max_part_weights = [1, 1],
      initial_partitioning_mode = Mode_deep_multilevel, context_type = ContextType_main,
      shared_memory_degree_of_parallelism = 1,
      preprocessing_stable_construction_of_incident_edges = False\<rparr>"

definition example_info :: OriginalHypergraphInfo where
  "example_info = \<lparr>original_hypergraph_weight = 2, original_k = 2, original_epsilon = Finite (1 / 2)\<rparr>"

text \<open>
  A mathematical library whose results are correctly rounded; arguments other than
  positive finite ones do not occur in the examples.
\<close>

definition correctly_rounded_libm :: Libm where
  "correctly_rounded_libm =
     \<lparr>std_pow = (\<lambda>x y. case (x, y) of
                         (Finite a, Finite b) \<Rightarrow> if 0 < a then to_double False (a powr b) else NaN
                       | _ \<Rightarrow> NaN),
      std_log2 = (\<lambda>x. case x of
                         Finite a \<Rightarrow> if 0 < a then to_double (a < 1) (log 2 a) else NaN
                       | _ \<Rightarrow> NaN)\<rparr>"

definition example_individual_hypergraph :: Hypergraph where
  "example_individual_hypergraph = \<lparr>hg_node_weights = [1, 3], hg_hyperedges = [([0, 1], 1)]\<rparr>"

definition example_individual_context :: Context where
  "example_individual_context =
     example_context\<lparr>partition_use_individual_part_weights := True,
                      partition_perfect_balance_part_weights := [2, 4],
                      partition_max_part_weights := [3, 5]\<rparr>"

text \<open>
  A single node of weight 29 to be split into 29 blocks, and a single node of weight 14
  with the max part weights 25 and 25.
\<close>

definition example_hypergraph29 :: Hypergraph where
  "example_hypergraph29 = \<lparr>hg_node_weights = [29], hg_hyperedges = []\<rparr>"

definition example_context29 :: Context where
  "example_context29 = example_context\<lparr>partition_k := 29\<rparr>"

definition example_hypergraph14 :: Hypergraph where
  "example_hypergraph14 = \<lparr>hg_node_weights = [14], hg_hyperedges = []\<rparr>"

definition example_individual_context25 :: Context where
  "example_individual_context25 =
     example_individual_context\<lparr>partition_max_part_weights := [25, 25]\<rparr>"

text \<open>
  A bisector that puts node 0 into part 0 and every other node into part 1, a context
  for four blocks, and the state after a bisection that put both nodes of the example
  hypergraph into block 0.
\<close>

definition example_bisector :: "Hypergraph \<Rightarrow> Context \<Rightarrow> nat \<Rightarrow> int" where
  "example_bisector hg c v = (if v = 0 then 0 else 1)"

definition example_context4 :: Context where
  "example_context4 =
     example_context\<lparr>partition_k := 4, partition_perfect_balance_part_weights := [1, 1, 1, 1],
                      partition_max_part_weights := [1, 1, 1, 1]\<rparr>"

definition example_phg :: PartitionedHypergraph where
  "example_phg =
     initializePartition ((new_PartitionedHypergraph 4 example_hypergraph)\<lparr>phg_part_ids := [0, 0]\<rparr>)"


section \<open>Theorems\<close>

subsection \<open>Enum string parsers\<close>

text \<open>
  C9. \<^verbatim>\<open>modeFromString\<close> returns \<^verbatim>\<open>Mode::recursive_bipartitioning\<close> exactly for the
  string "rb", \<^verbatim>\<open>Mode::direct\<close> exactly for "direct" and \<^verbatim>\<open>Mode::deep_multilevel\<close>
  exactly for "deep", without any error output; for every other string it reports
  "Illegal option: " followed by the string and then either the program is ended or
  \<^verbatim>\<open>Mode::UNDEFINED\<close> is returned, which is none of the three valid modes. This holds
  whatever \<^verbatim>\<open>ERR\<close> does after its report.
\<close>

theorem modeFromString_contract:
  "(modeFromString err_returns s = ([], Returns Mode_recursive_bipartitioning)) = (s = ''rb'') \<and>
   (modeFromString err_returns s = ([], Returns Mode_direct)) = (s = ''direct'') \<and>
   (modeFromString err_returns s = ([], Returns Mode_deep_multilevel)) = (s = ''deep'') \<and>
   (snd (modeFromString err_returns s) = Returns Mode_recursive_bipartitioning) = (s = ''rb'') \<and>
   (snd (modeFromString err_returns s) = Returns Mode_direct) = (s = ''direct'') \<and>
   (snd (modeFromString err_returns s) = Returns Mode_deep_multilevel) = (s = ''deep'') \<and>
   (if s = ''rb'' \<or> s = ''direct'' \<or> s = ''deep'' then fst (modeFromString err_returns s) = []
    else modeFromString err_returns s =
           ([''Illegal option: '' @ s], if err_returns then Returns Mode_UNDEFINED else Terminates))"
  by (simp add: modeFromString_def ERR_def)

text \<open>
  C8. On the spec's reading of \<^verbatim>\<open>ERR\<close>, for every string other than
  "best_prefer_unmatched" (and other than "best" when the experimental features are
  compiled in), \<^verbatim>\<open>acceptanceCriterionFromString\<close> reports the error and then reaches the
  end of the function without a \<^verbatim>\<open>return\<close>: it neither ends the program nor returns
  \<^verbatim>\<open>AcceptancePolicy::UNDEFINED\<close> or any other value.
\<close>

theorem acceptanceCriterionFromString_falls_off_end:
  assumes "crit \<noteq> ''best_prefer_unmatched''"
    and "\<not> (experimental \<and> crit = ''best'')"
  shows "acceptanceCriterionFromString ERR_returns_by_spec experimental crit =
           ([''No valid acceptance criterion for rating.''], FallsOffEnd) \<and>
         snd (acceptanceCriterionFromString ERR_returns_by_spec experimental crit) \<noteq> Terminates \<and>
         (\<forall>v. snd (acceptanceCriterionFromString ERR_returns_by_spec experimental crit) \<noteq> Returns v)"
  using assms by (simp add: acceptanceCriterionFromString_def ERR_def ERR_returns_by_spec_def)

theorem acceptanceCriterionFromString_falls_off_end_witness:
  "''best'' \<noteq> ''best_prefer_unmatched'' \<and> \<not> (False \<and> ''best'' = ''best'') \<and>
   acceptanceCriterionFromString ERR_returns_by_spec False ''best'' =
     ([''No valid acceptance criterion for rating.''], FallsOffEnd) \<and>
   acceptanceCriterionFromString ERR_returns_by_spec True ''worst'' =
     ([''No valid acceptance criterion for rating.''], FallsOffEnd)"
  using acceptanceCriterionFromString_falls_off_end [of "''best''" False]
    acceptanceCriterionFromString_falls_off_end [of "''worst''" True]
  by simp

subsection \<open>Clustering.compactify\<close>

lemma replicate9: "replicate 9 x = [x,x,x,x,x,x,x,x,x]"
  by (simp add: numeral_eq_Suc)


text \<open>
  C5. The sequential and the parallel path of \<^verbatim>\<open>compactify\<close> do not agree. On the
  clustering \<open>[7, 5]\<close> with upper ID bound 8 the sequential path (one task) relabels to
  \<open>[0, 1]\<close>, in order of first occurrence, and returns 2. The parallel path (two
  tasks) ranks the IDs by value: with an inclusive prefix sum it relabels to \<open>[2, 1]\<close>,
  with an exclusive one to \<open>[1, 0]\<close>. In a build with assertions the parallel path's
  own comparison with the sequential result fails.
\<close>

theorem compactify_parallel_differs:
  "compactify ndebug prefix_sum [7, 5] 8 1 = Inr ([0, 1], 2) \<and>
   compactify True inclusive_scan [7, 5] 8 2 = Inr ([2, 1], 2) \<and>
   compactify True exclusive_scan [7, 5] 8 2 = Inr ([1, 0], 2) \<and>
   compactify False inclusive_scan [7, 5] 8 2 = Inl AssertionFailed \<and>
   compactify False exclusive_scan [7, 5] 8 2 = Inl AssertionFailed"
  by (simp add: compactify_def parallelCompactify_def sequentialCompactify_def in_bounds_def
      replicate9)


subsection \<open>ProcessGraph::index\<close>

lemma mixed_radix_Nil: "mixed_radix k [] = 0"
  by (simp add: mixed_radix_def)

lemma mixed_radix_Cons: "mixed_radix k (c # cs) = c + k * mixed_radix k cs"
proof -
  have "(\<Sum>i<Suc (length cs). (c # cs) ! i * k ^ i) =
        (c # cs) ! 0 * k ^ 0 + (\<Sum>i<length cs. (c # cs) ! Suc i * k ^ Suc i)"
    by (rule sum.lessThan_Suc_shift)
  also have "\<dots> = c + k * (\<Sum>i<length cs. cs ! i * k ^ i)"
    by (simp add: sum_distrib_left mult.assoc mult.left_commute)
  finally show ?thesis by (simp add: mixed_radix_def)
qed

lemma int32_t_id: "- (2 ^ 31) \<le> x \<Longrightarrow> x < 2 ^ 31 \<Longrightarrow> int32_t x = x"
  by (simp add: int32_t_def)

lemma size_t_id: "0 \<le> x \<Longrightarrow> x < 2 ^ 31 \<Longrightarrow> size_t x = x"
  by (simp add: size_t_def)

lemma size_t_id2: "0 \<le> x \<Longrightarrow> x < 2 ^ 32 \<Longrightarrow> size_t x = x"
  by (simp add: size_t_def)

lemma mixed_radix_nonneg:
  "0 \<le> k \<Longrightarrow> \<forall>c\<in>set cs. 0 \<le> c \<Longrightarrow> 0 \<le> mixed_radix k cs"
  by (induction cs) (simp_all add: mixed_radix_Nil mixed_radix_Cons)

lemma mixed_radix_less:
  "0 < k \<Longrightarrow> \<forall>c\<in>set cs. 0 \<le> c \<and> c < k \<Longrightarrow> mixed_radix k cs < k ^ length cs"
proof (induction cs)
  case Nil
  then show ?case by (simp add: mixed_radix_Nil)
next
  case (Cons c cs)
  then have "mixed_radix k cs + 1 \<le> k ^ length cs" by simp
  then have "k * (mixed_radix k cs + 1) \<le> k * k ^ length cs"
    using Cons.prems(1) by (simp only: mult_le_cancel_left_pos)
  moreover have "c < k" using Cons.prems by simp
  ultimately show ?case by (simp add: mixed_radix_Cons algebra_simps)
qed

text \<open>
  While the multiplier stays below \<open>2^31\<close> no product wraps, and the loop computes the
  mixed-radix sum: \<open>index < multiplier\<close> is its invariant.
\<close>

lemma index_loop_eq:
  assumes "0 < k"
  shows "\<forall>c\<in>set cs. 0 \<le> c \<and> c < k \<Longrightarrow> 0 \<le> idx \<Longrightarrow> idx < m \<Longrightarrow>
         m * k ^ length cs < 2 ^ 31 \<Longrightarrow>
         index_loop k cs (idx, m, lb) =
           (idx + m * mixed_radix k cs, m * k ^ length cs, if cs = [] then lb else last cs)"
proof (induction cs arbitrary: idx m lb)
  case Nil
  then show ?case by (simp add: mixed_radix_Nil)
next
  case (Cons c cs)
  have c: "0 \<le> c" "c < k" using Cons.prems(1) by simp_all
  have m: "0 < m" using Cons.prems(2,3) by simp
  have kl: "1 \<le> k ^ length cs" using assms by simp
  have mk: "m * k \<le> m * k * k ^ length cs"
    using mult_left_mono [OF kl, of "m * k"] m assms by simp
  have bound: "m * k < 2 ^ 31" using mk Cons.prems(4) by (simp add: mult.assoc)
  have mc: "0 \<le> m * c" using m c(1) by simp
  have "m * (c + 1) \<le> m * k" using c(2) m by simp
  then have mc': "m * c + m \<le> m * k" by (simp add: algebra_simps)
  have p1: "int32_t (m * c) = m * c"
    by (rule int32_t_id) (use mc mc' m bound in linarith)+
  have p2: "int32_t (m * k) = m * k"
    by (rule int32_t_id) (use m assms bound mc mc' in linarith)+
  have p3: "size_t (idx + m * c) = idx + m * c"
    by (rule size_t_id) (use Cons.prems(2,3) mc mc' bound in linarith)+
  have "index_loop k (c # cs) (idx, m, lb) = index_loop k cs (idx + m * c, m * k, c)"
    by (simp add: p1 p2 p3)
  also have "\<dots> = (idx + m * c + m * k * mixed_radix k cs, m * k * k ^ length cs,
                    if cs = [] then c else last cs)"
    by (rule Cons.IH) (use Cons.prems mc mc' in \<open>simp_all add: mult.assoc\<close>)
  finally show ?case by (simp add: mixed_radix_Cons algebra_simps)
qed

lemma mixed_radix_zero:
  "0 < k \<Longrightarrow> \<forall>c\<in>set cs. 0 \<le> c \<Longrightarrow> mixed_radix k cs = 0 \<Longrightarrow> cs = replicate (length cs) 0"
proof (induction cs)
  case Nil
  then show ?case by simp
next
  case (Cons c cs)
  have nn: "0 \<le> mixed_radix k cs" using Cons.prems by (simp add: mixed_radix_nonneg)
  then have "0 \<le> k * mixed_radix k cs" using Cons.prems by simp
  moreover have "c + k * mixed_radix k cs = 0" "0 \<le> c"
    using Cons.prems by (simp_all add: mixed_radix_Cons)
  ultimately have "c = 0" and "k * mixed_radix k cs = 0"
    by linarith+
  with Cons show ?case by simp
qed

lemma digits_unique:
  assumes "0 < k"
  shows "\<forall>c\<in>set xs. 0 \<le> c \<and> c < k \<Longrightarrow> \<forall>c\<in>set ys. 0 \<le> c \<and> c < k \<Longrightarrow>
         mixed_radix k xs = mixed_radix k ys \<Longrightarrow> length xs \<le> length ys \<Longrightarrow>
         ys = xs @ replicate (length ys - length xs) 0"
proof (induction xs arbitrary: ys)
  case Nil
  then have "mixed_radix k ys = 0" by (simp add: mixed_radix_Nil)
  moreover have "\<forall>c\<in>set ys. 0 \<le> c" using Nil.prems by simp
  ultimately have "ys = replicate (length ys) 0" using assms mixed_radix_zero by blast
  then show ?case by simp
next
  case (Cons x xs)
  then obtain y ys' where ys: "ys = y # ys'" by (cases ys) auto
  have eq: "x + k * mixed_radix k xs = y + k * mixed_radix k ys'"
    using Cons.prems ys by (simp add: mixed_radix_Cons)
  have rx: "0 \<le> x" "x < k" and ry: "0 \<le> y" "y < k" using Cons.prems ys by simp_all
  have "(x + k * mixed_radix k xs) mod k = x" using rx by simp
  moreover have "(y + k * mixed_radix k ys') mod k = y" using ry by simp
  ultimately have xy: "x = y" using eq by simp
  with eq assms have "mixed_radix k xs = mixed_radix k ys'" by simp
  then have "ys' = xs @ replicate (length ys' - length xs) 0"
    using Cons.IH [of ys'] Cons.prems ys by simp
  with xy ys show ?case by simp
qed

lemma sorted_le_last: "sorted cs \<Longrightarrow> c \<in> set cs \<Longrightarrow> c \<le> last (cs :: int list)"
  by (induction cs) auto

lemma sorted_distinct_last_zero:
  assumes "sorted cs" "distinct cs" "\<forall>c\<in>set cs. 0 \<le> c" "cs \<noteq> []" "last cs = (0::int)"
  shows "cs = [0]"
proof -
  have "\<forall>c\<in>set cs. c \<le> last cs"
    using assms(1) by (simp add: sorted_le_last)
  with assms have all0: "\<forall>c\<in>set cs. c = 0" by fastforce
  obtain c cs' where cs: "cs = c # cs'" using assms(4) by (cases cs) auto
  have "cs' = []"
  proof (rule ccontr)
    assume "cs' \<noteq> []"
    then obtain d ds where "cs' = d # ds" by (cases cs') auto
    with cs all0 have "c = 0" "d = 0" by simp_all
    with cs \<open>cs' = d # ds\<close> assms(2) show False by simp
  qed
  with cs all0 show ?thesis by simp
qed

lemma connectivity_set_props:
  assumes "connectivity_set_of k cs"
  shows "cs \<noteq> []" "sorted cs" "distinct cs" "\<forall>c\<in>set cs. 0 \<le> c \<and> c < k" "0 < k"
proof -
  show ne: "cs \<noteq> []" and "sorted cs" and "distinct cs"
    using assms by (simp_all add: connectivity_set_of_def)
  show r: "\<forall>c\<in>set cs. 0 \<le> c \<and> c < k"
    using assms by (simp add: connectivity_set_of_def list_all_iff)
  from ne obtain c where "c \<in> set cs" by (cases cs) auto
  with r show "0 < k" by force
qed

lemma power_le_max2: "0 < k \<Longrightarrow> k ^ n \<le> k ^ max 2 n" for k :: int
  by (rule power_increasing) simp_all

lemma index_as_mixed_radix:
  assumes "connectivity_set_of k cs" and bound: "k ^ max 2 (length cs) < 2 ^ 31"
  shows "ProcessGraph_index k cs =
           mixed_radix k cs + (if length cs = 1 then last cs * k else 0)"
proof -
  note p = connectivity_set_props [OF assms(1)]
  have kr: "k ^ length cs < 2 ^ 31"
    using power_le_max2 [OF p(5), of "length cs"] bound by linarith
  have k2: "k * k < 2 ^ 31"
    using power_le_max2 [OF p(5), of 2] power_increasing [of 2 "max 2 (length cs)" k] p(5) bound
    by (simp add: power2_eq_square)
  have one: "(k ^ length cs = k) = (length cs = 1)"
  proof (cases "k = 1")
    case True
    with p(4) have all0: "\<forall>c\<in>set cs. c = 0" by auto
    obtain c cs' where cs: "cs = c # cs'" using p(1) by (cases cs) auto
    have "cs' = []"
    proof (rule ccontr)
      assume "cs' \<noteq> []"
      then obtain d ds where "cs' = d # ds" by (cases cs') auto
      with cs all0 have "c = 0" "d = 0" by simp_all
      with cs \<open>cs' = d # ds\<close> p(3) show False by simp
    qed
    with cs True show ?thesis by simp
  next
    case False
    with p(5) have "1 < k" by simp
    then have "(k ^ length cs = k ^ 1) = (length cs = 1)"
      by (rule power_inject_exp)
    then show ?thesis by simp
  qed
  have loop: "index_loop k cs (0, 1, kInvalidPartition) =
                (mixed_radix k cs, k ^ length cs, last cs)"
    using index_loop_eq [OF p(5) p(4), of 0 1 kInvalidPartition] kr p(1) by simp
  have mr: "0 \<le> mixed_radix k cs" "mixed_radix k cs < k ^ length cs"
    using p(4) p(5) by (simp_all add: mixed_radix_nonneg mixed_radix_less)
  show ?thesis
  proof (cases "length cs = 1")
    case True
    have l: "0 \<le> last cs" "last cs < k" using p(1) p(4) last_in_set [of cs] by auto
    have lk: "0 \<le> last cs * k" using l(1) p(5) by simp
    have "(last cs + 1) * k \<le> k * k" using l(2) p(5) by simp
    then have lk': "last cs * k + k \<le> k * k" by (simp add: algebra_simps)
    have w1: "int32_t (last cs * k) = last cs * k"
      by (rule int32_t_id) (use lk lk' k2 p(5) in linarith)+
    have w2: "size_t (mixed_radix k cs + last cs * k) = mixed_radix k cs + last cs * k"
      by (rule size_t_id2) (use mr kr lk lk' k2 p(5) in simp_all)
    show ?thesis using True one by (simp add: ProcessGraph_index_def loop w1 w2)
  next
    case False
    have w: "size_t (mixed_radix k cs) = mixed_radix k cs"
      by (rule size_t_id) (use mr kr in linarith)+
    show ?thesis using False one by (simp add: ProcessGraph_index_def loop w)
  qed
qed

lemma index_as_doubled:
  assumes "connectivity_set_of k cs" and "k ^ max 2 (length cs) < 2 ^ 31"
  shows "ProcessGraph_index k cs = mixed_radix k (singleton_doubled cs)"
proof (cases "length cs = 1")
  case True
  then obtain a where "cs = [a]" by (cases cs) auto
  then show ?thesis
    using index_as_mixed_radix [OF assms]
    by (simp add: singleton_doubled_def mixed_radix_Cons mixed_radix_Nil)
next
  case False
  then show ?thesis
    using index_as_mixed_radix [OF assms] by (simp add: singleton_doubled_def)
qed

lemma doubled_inject:
  assumes "cs \<noteq> []" "sorted cs" "distinct cs" "ds \<noteq> []" "sorted ds" "distinct ds"
    and "singleton_doubled cs = singleton_doubled ds"
  shows "cs = (ds :: int list)"
proof (cases "length cs = 1")
  case True
  then obtain c where cs: "cs = [c]" by (cases cs) auto
  with assms(7) have d: "singleton_doubled ds = [c, c]" by (simp add: singleton_doubled_def)
  show ?thesis
  proof (cases "length ds = 1")
    case True
    then obtain e where "ds = [e]" by (cases ds) auto
    with d cs show ?thesis by (simp add: singleton_doubled_def)
  next
    case False
    with d have "ds = [c, c]" by (simp add: singleton_doubled_def)
    with assms(6) show ?thesis by simp
  qed
next
  case False
  then have c: "singleton_doubled cs = cs" by (simp add: singleton_doubled_def)
  show ?thesis
  proof (cases "length ds = 1")
    case True
    then obtain e where "ds = [e]" by (cases ds) auto
    with assms(7) c have "cs = [e, e]" by (simp add: singleton_doubled_def)
    with assms(3) show ?thesis by simp
  next
    case False
    with c assms(7) show ?thesis by (simp add: singleton_doubled_def)
  qed
qed

lemma doubled_length_ge2:
  assumes "cs \<noteq> []"
  shows "2 \<le> length (singleton_doubled cs)"
proof (cases cs)
  case Nil
  with assms show ?thesis by simp
next
  case (Cons c cs')
  then show ?thesis by (cases cs') (simp_all add: singleton_doubled_def)
qed

lemma index_inject_aux:
  assumes A: "connectivity_set_of k cs" and B: "connectivity_set_of k ds"
    and bA: "k ^ max 2 (length cs) < 2 ^ 31" and bB: "k ^ max 2 (length ds) < 2 ^ 31"
    and le: "length (singleton_doubled cs) \<le> length (singleton_doubled ds)"
    and eq: "ProcessGraph_index k cs = ProcessGraph_index k ds"
  shows "cs = ds"
proof -
  note pa = connectivity_set_props [OF A] and pb = connectivity_set_props [OF B]
  let ?xs = "singleton_doubled cs" and ?ys = "singleton_doubled ds"
  have da: "\<forall>c\<in>set ?xs. 0 \<le> c \<and> c < k" and db: "\<forall>c\<in>set ?ys. 0 \<le> c \<and> c < k"
    using pa(4) pb(4) by (auto simp: singleton_doubled_def)
  have mr: "mixed_radix k ?xs = mixed_radix k ?ys"
    using eq index_as_doubled [OF A bA] index_as_doubled [OF B bB] by simp
  have ys: "?ys = ?xs @ replicate (length ?ys - length ?xs) 0"
    by (rule digits_unique [OF pa(5) da db mr le])
  have "length ?ys = length ?xs"
  proof (rule ccontr)
    assume "length ?ys \<noteq> length ?xs"
    with le have lt: "length ?xs < length ?ys" by simp
    define n where "n = length ?ys - length ?xs"
    with lt have "0 < n" by simp
    then have "last (?xs @ replicate n 0) = (0::int)" by (simp add: last_replicate)
    moreover have "last ?ys = last (?xs @ replicate n 0)"
      unfolding n_def using ys by (rule arg_cong)
    ultimately have "last ?ys = 0" by (simp only:)
    moreover have "last ?ys = last ds" using pb(1) by (simp add: singleton_doubled_def)
    ultimately have "last ds = 0" by simp
    then have "ds = [0]"
      using sorted_distinct_last_zero [OF pb(2,3) _ pb(1)] pb(4) by simp
    then have "length ?ys = 2" by (simp add: singleton_doubled_def)
    with lt doubled_length_ge2 [OF pa(1)] show False by simp
  qed
  then have "?xs @ replicate (length ?ys - length ?xs) 0 = ?xs" by simp
  with ys have "?ys = ?xs" by (rule trans)
  then have "?xs = ?ys" by (rule sym)
  then show "cs = ds" by (rule doubled_inject [OF pa(1,2,3) pb(1,2,3)])
qed

lemma index_bounds:
  assumes "connectivity_set_of k cs" and "k ^ max 2 (length cs) < 2 ^ 31"
  shows "0 \<le> ProcessGraph_index k cs \<and> ProcessGraph_index k cs < k ^ max 2 (length cs)"
proof -
  note p = connectivity_set_props [OF assms(1)]
  let ?xs = "singleton_doubled cs"
  have d: "\<forall>c\<in>set ?xs. 0 \<le> c \<and> c < k" using p(4) by (auto simp: singleton_doubled_def)
  have l: "length ?xs = max 2 (length cs)"
    using doubled_length_ge2 [OF p(1)] by (auto simp: singleton_doubled_def)
  have "0 \<le> mixed_radix k ?xs" using d p(5) by (simp add: mixed_radix_nonneg)
  moreover have "mixed_radix k ?xs < k ^ length ?xs" using d p(5) by (rule mixed_radix_less [rotated])
  ultimately show ?thesis unfolding index_as_doubled [OF assms] l by simp
qed

text \<open>
  C7. For a non-empty connectivity set \<open>c\<^sub>0 < c\<^sub>1 < ...\<close> of blocks \<open>0..k-1\<close> with
  \<open>k ^ max 2 |C| < 2^31\<close>, \<^verbatim>\<open>ProcessGraph::index\<close> returns the sum of
  \<open>c\<^sub>i * k ^ i\<close>, plus \<open>last * k\<close> exactly when the set has one member, and two
  such sets have the same index only if they are equal. The bound holds for every set
  of a table of at most \<^verbatim>\<open>MEMORY_LIMIT\<close> = \<open>10^8\<close> entries.
\<close>

theorem ProcessGraph_index_encoding:
  assumes "connectivity_set_of k cs" and "connectivity_set_of k ds"
    and "k ^ max 2 (length cs) < 2 ^ 31" and "k ^ max 2 (length ds) < 2 ^ 31"
  shows "ProcessGraph_index k cs =
           (\<Sum>i<length cs. cs ! i * k ^ i) + (if length cs = 1 then last cs * k else 0) \<and>
         ((ProcessGraph_index k cs = ProcessGraph_index k ds) = (cs = ds))"
proof -
  have "cs = ds" if "ProcessGraph_index k cs = ProcessGraph_index k ds"
  proof (cases "length (singleton_doubled cs) \<le> length (singleton_doubled ds)")
    case True
    then show ?thesis using index_inject_aux [OF assms True that] by simp
  next
    case False
    then have "length (singleton_doubled ds) \<le> length (singleton_doubled cs)"
      by simp
    then show ?thesis
      using index_inject_aux [OF assms(2,1) assms(4,3) _ that [symmetric]] by simp
  qed
  then show ?thesis
    using index_as_mixed_radix [OF assms(1) assms(3)] by (auto simp: mixed_radix_def)
qed

theorem ProcessGraph_index_encoding_witness:
  "connectivity_set_of 4 [1] \<and> connectivity_set_of 4 [0, 1, 3] \<and>
   (4::int) ^ max 2 (length [1::int]) < 2 ^ 31 \<and> (4::int) ^ max 2 (length [0, 1, 3::int]) < 2 ^ 31 \<and>
   ProcessGraph_index 4 [1] = 5 \<and> ProcessGraph_index 4 [0, 1, 3] = 52 \<and>
   ProcessGraph_index 4 [1] \<noteq> ProcessGraph_index 4 [0, 1, 3]"
proof -
  have h: "connectivity_set_of 4 [1]" "connectivity_set_of 4 [0, 1, 3]"
    by (simp_all add: connectivity_set_of_def)
  have g: "(4::int) ^ max 2 (length [1::int]) < 2 ^ 31"
          "(4::int) ^ max 2 (length [0, 1, 3::int]) < 2 ^ 31"
    by simp_all
  have a: "ProcessGraph_index 4 [1] = 5" "ProcessGraph_index 4 [1] \<noteq> ProcessGraph_index 4 [0, 1, 3]"
    using ProcessGraph_index_encoding [OF h g] by simp_all
  have b: "ProcessGraph_index 4 [0, 1, 3] = 52"
    using ProcessGraph_index_encoding [OF h(2) h(1) g(2) g(1)]
    by (simp add: lessThan_Suc numeral_3_eq_3)
  show ?thesis using h g a b by simp
qed

text \<open>
  Without the bound the 32-bit products wrap and the encoding is neither the sum nor
  injective: over \<open>k = 1024\<close> blocks the multiplier reaches \<open>2^30\<close> after three
  members, \<open>2^30 * 4\<close> is 0 in 32 bits, and the sets \<open>{0, 1, 2}\<close> and
  \<open>{0, 1, 2, 4}\<close> get the same index 2098176, while the sum of \<open>c\<^sub>i * k ^ i\<close> of
  the second set is 4297065472.
\<close>

theorem ProcessGraph_index_encoding_counterexample:
  "connectivity_set_of 1024 [0, 1, 2] \<and> connectivity_set_of 1024 [0, 1, 2, 4] \<and>
   ProcessGraph_index 1024 [0, 1, 2] = 2098176 \<and>
   ProcessGraph_index 1024 [0, 1, 2, 4] = 2098176 \<and>
   (\<Sum>i<length [0, 1, 2, 4::int]. [0, 1, 2, 4] ! i * 1024 ^ i) = (4297065472::int)"
  by (simp add: connectivity_set_of_def ProcessGraph_index_def int32_t_def size_t_def
      kInvalidPartition_def lessThan_Suc numeral_3_eq_3)

subsection \<open>The two halves of k\<close>

lemma ceiling_half_int: "\<lceil>real_of_int k / 2\<rceil> = - (- k div 2)"
  using ceiling_divide_eq_div [of k 2] by simp

lemma ceil_half: "0 \<le> k \<Longrightarrow> cpp_div k 2 + (if cpp_mod k 2 \<noteq> 0 then 1 else 0) = \<lceil>real_of_int k / 2\<rceil>"
  unfolding ceiling_half_int by (simp add: cpp_div_2 cpp_mod_2) presburger

lemma ceil_half': "0 \<le> k \<Longrightarrow> cpp_div k 2 + cpp_mod k 2 = \<lceil>real_of_int k / 2\<rceil>"
  unfolding ceiling_half_int by (simp add: cpp_div_2 cpp_mod_2) presburger

lemma floor_half: "0 \<le> k \<Longrightarrow> cpp_div k 2 = \<lfloor>real_of_int k / 2\<rfloor>"
  using floor_divide_of_int_eq [of k 2, where ?'a = real] by (simp add: cpp_div_2)

subsection \<open>Rounding to binary64\<close>

lemma rte_of_int: "round_ties_to_even (of_int n) = n"
  by (simp add: round_ties_to_even_def)

lemma rte_bounds: "x - 1 / 2 \<le> of_int (round_ties_to_even x) \<and> of_int (round_ties_to_even x) \<le> x + 1 / 2"
  unfolding round_ties_to_even_def Let_def by (simp; linarith)

lemma rte_le_int: "x \<le> of_int n \<Longrightarrow> round_ties_to_even x \<le> n"
  unfolding round_ties_to_even_def Let_def
  by (auto; linarith)

lemma rte_ge_int: "of_int n \<le> x \<Longrightarrow> n \<le> round_ties_to_even x"
  unfolding round_ties_to_even_def Let_def
  by (auto; linarith)

lemma rte_mono: 
  assumes "x \<le> y" shows "round_ties_to_even x \<le> round_ties_to_even y"
proof (cases "\<lfloor>x\<rfloor> = \<lfloor>y\<rfloor>")
  case True
  then show ?thesis using assms unfolding round_ties_to_even_def Let_def by (auto; linarith)
next
  case False
  with assms have "\<lfloor>x\<rfloor> + 1 \<le> \<lfloor>y\<rfloor>" using floor_mono [of x y] by linarith
  moreover have "round_ties_to_even x \<le> \<lfloor>x\<rfloor> + 1"
    unfolding round_ties_to_even_def Let_def by auto
  moreover have "\<lfloor>y\<rfloor> \<le> round_ties_to_even y"
    unfolding round_ties_to_even_def Let_def by auto
  ultimately show ?thesis by linarith
qed

lemma rte_cases:
  assumes "\<lfloor>x\<rfloor> = n" "x - of_int n = d"
  shows "round_ties_to_even x =
           (if d < 1 / 2 then n else if 1 / 2 < d then n + 1 else if even n then n else n + 1)"
  unfolding round_ties_to_even_def Let_def assms(1) assms(2) ..

lemma rte_neg: "round_ties_to_even (- x) = - round_ties_to_even x"
proof (cases "x = of_int \<lfloor>x\<rfloor>")
  case True
  then obtain n where "x = of_int n" ..
  then have "- x = of_int (- n)" by simp
  then show ?thesis unfolding \<open>x = of_int n\<close> by (simp only: rte_of_int flip: of_int_minus)
next
  case False
  define n where "n = \<lfloor>x\<rfloor>"
  define d where "d = x - of_int n"
  have f: "\<lfloor>- x\<rfloor> = - n - 1"
    using False by (simp add: floor_minus ceiling_altdef n_def)
  have d: "0 < d" "d < 1" using False unfolding d_def n_def by linarith+
  have e: "- x - of_int (- n - 1) = 1 - d" by (simp add: d_def)
  have a: "round_ties_to_even x =
           (if d < 1 / 2 then n else if 1 / 2 < d then n + 1 else if even n then n else n + 1)"
    by (rule rte_cases) (simp_all add: n_def d_def)
  have b: "round_ties_to_even (- x) =
           (if 1 - d < 1 / 2 then - n - 1 else if 1 / 2 < 1 - d then - n - 1 + 1
            else if even (- n - 1) then - n - 1 else - n - 1 + 1)"
    by (rule rte_cases [OF f e])
  show ?thesis unfolding a b using d by auto
qed


lemma powi_nat: "0 \<le> e \<Longrightarrow> (2::real) powi e = 2 ^ nat e"
  by (simp add: power_int_def)

lemma powi_neg_nat: "0 \<le> e \<Longrightarrow> (2::real) powi (- e) = 1 / 2 ^ nat e"
  by (simp add: power_int_def field_simps)

lemma binade_bounds:
  assumes "x \<noteq> 0"
  shows "2 powi binade x \<le> \<bar>x\<bar> \<and> \<bar>x\<bar> < 2 powi (binade x + 1)"
proof (cases "1 \<le> \<bar>x\<bar>")
  case True
  define m where "m = \<lfloor>\<bar>x\<bar>\<rfloor>"
  have m: "1 \<le> m" "of_int m \<le> \<bar>x\<bar>" "\<bar>x\<bar> < of_int (m + 1)"
    using True unfolding m_def by (linarith+)
  then have "0 < m" by simp
  note b = bitlen_bounds [OF this]
  have b1: "1 \<le> bitlen m" using \<open>0 < m\<close> bitlen_eq_zero_iff [of m] bitlen_nonneg [of m] by linarith
  have e: "binade x = bitlen m - 1" using True by (simp add: binade_def m_def)
  have "(2::real) powi (bitlen m - 1) = 2 ^ nat (bitlen m - 1)" using b1 by (simp add: powi_nat)
  also have "\<dots> = of_int (2 ^ nat (bitlen m - 1))" by simp
  also have "\<dots> \<le> of_int m" using b by (simp only: of_int_le_iff)
  finally have lo: "2 powi (bitlen m - 1) \<le> \<bar>x\<bar>" using m(2) by linarith
  have "m + 1 \<le> 2 ^ nat (bitlen m)" using b by linarith
  then have "real_of_int (m + 1) \<le> of_int (2 ^ nat (bitlen m))" by (simp only: of_int_le_iff)
  also have "\<dots> = 2 powi (bitlen m)" using b1 by (simp add: powi_nat)
  finally have hi: "\<bar>x\<bar> < 2 powi (bitlen m)" using m(3) by linarith
  show ?thesis using lo hi by (simp add: e)
next
  case False
  define y where "y = 1 / \<bar>x\<bar>"
  define N where "N = \<lceil>y\<rceil>"
  have ax: "0 < \<bar>x\<bar>" "\<bar>x\<bar> < 1" using assms False by simp_all
  then have y1: "1 < y" by (simp add: y_def)
  have N: "y \<le> of_int N" "of_int (N - 1) < y" unfolding N_def by linarith+
  have "1 < real_of_int N" using y1 N(1) by linarith
  then have "1 < N" by linarith
  then have pos: "0 < N - 1" by simp
  note b = bitlen_bounds [OF pos]
  define c where "c = bitlen (N - 1)"
  have c1: "1 \<le> c" using pos bitlen_eq_zero_iff [of "N - 1"] bitlen_nonneg [of "N - 1"]
    unfolding c_def by linarith
  have e: "binade x = - c" using False by (simp add: binade_def c_def N_def y_def)
  have "N \<le> 2 ^ nat c" using b unfolding c_def by linarith
  then have "real_of_int N \<le> of_int (2 ^ nat c)" by (simp only: of_int_le_iff)
  then have "y \<le> 2 ^ nat c" using N(1) by (simp del: of_int_le_numeral_power_cancel_iff)
  then have "1 / \<bar>x\<bar> \<le> 2 ^ nat c" by (simp add: y_def)
  then have "1 / 2 ^ nat c \<le> \<bar>x\<bar>" using ax(1) by (simp add: field_simps)
  then have lo: "2 powi (- c) \<le> \<bar>x\<bar>" using c1 by (simp add: powi_neg_nat)
  have "2 ^ nat (c - 1) \<le> N - 1" using b unfolding c_def by simp
  then have "real_of_int (2 ^ nat (c - 1)) \<le> of_int (N - 1)" by (simp only: of_int_le_iff)
  then have "2 ^ nat (c - 1) < y" using N(2) by simp
  then have "2 ^ nat (c - 1) < 1 / \<bar>x\<bar>" by (simp add: y_def)
  then have "\<bar>x\<bar> < 1 / 2 ^ nat (c - 1)" using ax(1) by (simp add: field_simps)
  moreover have "(2::real) powi (- c + 1) = 1 / 2 ^ nat (c - 1)"
    using powi_neg_nat [of "c - 1"] c1 by simp
  ultimately have hi: "\<bar>x\<bar> < 2 powi (- c + 1)" by simp
  show ?thesis using lo hi by (simp add: e)
qed

lemma powi_mono: "a \<le> b \<Longrightarrow> (2::real) powi a \<le> 2 powi b"
  by (rule power_int_increasing) simp_all

lemma powi_less_imp: "(2::real) powi a < 2 powi b \<Longrightarrow> a < b"
  using powi_mono [of b a] by (rule_tac ccontr) simp

lemma binade_eqI:
  assumes "2 powi e \<le> \<bar>x\<bar>" "\<bar>x\<bar> < 2 powi (e + 1)"
  shows "binade x = e"
proof -
  have p: "0 < (2::real) powi e" by simp
  have "x \<noteq> 0"
  proof (rule notI)
    assume "x = 0"
    then have "\<bar>x\<bar> = 0" by simp
    with assms(1) p show False by linarith
  qed
  note b = binade_bounds [OF this]
  have "(2::real) powi e < 2 powi (binade x + 1)" using assms(1) b by linarith
  then have "e < binade x + 1" by (rule powi_less_imp)
  moreover have "(2::real) powi binade x < 2 powi (e + 1)" using assms(2) b by linarith
  then have "binade x < e + 1" by (rule powi_less_imp)
  ultimately show ?thesis by simp
qed


lemma powi_diff: "(2::real) powi a / 2 powi b = 2 powi (a - b)"
  by (simp add: power_int_diff)

lemma powi_add: "(2::real) powi a * 2 powi b = 2 powi (a + b)"
  by (simp add: power_int_add)

lemma powi_pos: "0 < (2::real) powi a"
  by simp

lemma powi_52: "(2::real) powi 52 = of_int (2 ^ 52)"
  by (simp add: power_int_def)

lemma powi_53: "(2::real) powi 53 = of_int (2 ^ 53)"
  by (simp add: power_int_def)

lemma binade_minus: "binade (- x) = binade x"
  by (simp add: binade_def)

lemma ulp_exponent_minus: "ulp_exponent (- x) = ulp_exponent x"
  by (simp add: ulp_exponent_def binade_minus)

lemma round_to_double_0: "round_to_double 0 = 0"
  by (simp add: round_to_double_def)

lemma round_to_double_minus: "round_to_double (- x) = - round_to_double x"
  by (simp add: round_to_double_def ulp_exponent_minus rte_neg)

lemma round_to_double_nonneg:
  assumes "0 \<le> x" shows "0 \<le> round_to_double x"
proof (cases "x = 0")
  case True
  then show ?thesis by (simp add: round_to_double_0)
next
  case False
  have "0 \<le> x / 2 powi ulp_exponent x" using assms by simp
  then have "of_int 0 \<le> x / 2 powi ulp_exponent x" by simp
  then have "0 \<le> round_ties_to_even (x / 2 powi ulp_exponent x)" by (rule rte_ge_int)
  then show ?thesis using False by (simp add: round_to_double_def)
qed

lemma binade_mono:
  assumes "0 < x" "x \<le> y" shows "binade x \<le> binade y"
proof -
  have nz: "x \<noteq> 0" "y \<noteq> 0" using assms by simp_all
  have "2 powi binade x \<le> \<bar>x\<bar>" using binade_bounds [OF nz(1)] by simp
  moreover have "\<bar>y\<bar> < 2 powi (binade y + 1)" using binade_bounds [OF nz(2)] by simp
  ultimately have "(2::real) powi binade x < 2 powi (binade y + 1)" using assms by linarith
  then have "binade x < binade y + 1" by (rule powi_less_imp)
  then show ?thesis by simp
qed

lemma round_to_double_upper:
  assumes "0 < x"
  shows "round_to_double x \<le> 2 powi (ulp_exponent x + 53)"
proof -
  let ?e = "ulp_exponent x"
  have nz: "x \<noteq> 0" using assms by simp
  have "\<bar>x\<bar> < 2 powi (binade x + 1)" using binade_bounds [OF nz] by simp
  moreover have "(2::real) powi (binade x + 1) \<le> 2 powi (?e + 53)"
    by (rule powi_mono) (simp add: ulp_exponent_def)
  ultimately have "x \<le> 2 powi (?e + 53)" using assms by linarith
  then have "x / 2 powi ?e \<le> 2 powi (?e + 53) / 2 powi ?e"
    by (rule divide_right_mono) simp
  also have "\<dots> = 2 powi (?e + 53 - ?e)" by (rule powi_diff)
  also have "\<dots> = 2 powi 53" by simp
  also have "\<dots> = of_int (2 ^ 53)" by (rule powi_53)
  finally have "round_ties_to_even (x / 2 powi ?e) \<le> 2 ^ 53" by (rule rte_le_int)
  then have "real_of_int (round_ties_to_even (x / 2 powi ?e)) \<le> of_int (2 ^ 53)"
    by (simp only: of_int_le_iff)
  then have "real_of_int (round_ties_to_even (x / 2 powi ?e)) * 2 powi ?e \<le> of_int (2 ^ 53) * 2 powi ?e"
    by (rule mult_right_mono) simp
  also have "real_of_int (2 ^ 53) * 2 powi ?e = 2 powi 53 * 2 powi ?e" by (simp only: powi_53)
  also have "\<dots> = 2 powi (53 + ?e)" by (rule powi_add)
  also have "\<dots> = 2 powi (?e + 53)" by (simp add: add.commute)
  finally show ?thesis using nz by (simp add: round_to_double_def)
qed

lemma round_to_double_lower:
  assumes "0 < x" "- 1022 \<le> binade x"
  shows "2 powi (binade x) \<le> round_to_double x"
proof -
  let ?e = "ulp_exponent x"
  have nz: "x \<noteq> 0" using assms by simp
  have e: "?e = binade x - 52" using assms(2) by (simp add: ulp_exponent_def)
  have "2 powi binade x \<le> x" using binade_bounds [OF nz] assms(1) by simp
  then have "2 powi binade x / 2 powi ?e \<le> x / 2 powi ?e"
    by (rule divide_right_mono) simp
  moreover have "(2::real) powi binade x / 2 powi ?e = of_int (2 ^ 52)"
  proof -
    have "(2::real) powi binade x / 2 powi ?e = 2 powi (binade x - ?e)" by (rule powi_diff)
    also have "\<dots> = 2 powi 52" by (simp add: e)
    finally show ?thesis by (simp only: powi_52)
  qed
  ultimately have "of_int (2 ^ 52) \<le> x / 2 powi ?e" by (simp only:)
  then have "2 ^ 52 \<le> round_ties_to_even (x / 2 powi ?e)" by (rule rte_ge_int)
  then have "real_of_int (2 ^ 52) \<le> of_int (round_ties_to_even (x / 2 powi ?e))"
    by (simp only: of_int_le_iff)
  then have "real_of_int (2 ^ 52) * 2 powi ?e \<le> of_int (round_ties_to_even (x / 2 powi ?e)) * 2 powi ?e"
    by (rule mult_right_mono) simp
  moreover have "real_of_int (2 ^ 52) * 2 powi ?e = 2 powi (binade x)"
  proof -
    have "real_of_int (2 ^ 52) * 2 powi ?e = 2 powi 52 * 2 powi ?e" by (simp only: powi_52)
    also have "\<dots> = 2 powi (52 + ?e)" by (rule powi_add)
    also have "\<dots> = 2 powi (binade x)" by (simp add: e)
    finally show ?thesis .
  qed
  ultimately have "(2::real) powi (binade x) \<le> of_int (round_ties_to_even (x / 2 powi ?e)) * 2 powi ?e"
    by (simp only:)
  then show ?thesis using nz by (simp add: round_to_double_def)
qed

lemma round_to_double_mono_pos:
  assumes "0 < x" "x \<le> y"
  shows "round_to_double x \<le> round_to_double y"
proof (cases "ulp_exponent x = ulp_exponent y")
  case True
  have nz: "x \<noteq> 0" "y \<noteq> 0" using assms by simp_all
  have "x / 2 powi ulp_exponent y \<le> y / 2 powi ulp_exponent y"
    using assms(2) by (rule divide_right_mono) simp
  then have "round_ties_to_even (x / 2 powi ulp_exponent y) \<le> round_ties_to_even (y / 2 powi ulp_exponent y)"
    by (rule rte_mono)
  then have "real_of_int (round_ties_to_even (x / 2 powi ulp_exponent y))
             \<le> of_int (round_ties_to_even (y / 2 powi ulp_exponent y))"
    by (simp only: of_int_le_iff)
  then have "real_of_int (round_ties_to_even (x / 2 powi ulp_exponent y)) * 2 powi ulp_exponent y
             \<le> of_int (round_ties_to_even (y / 2 powi ulp_exponent y)) * 2 powi ulp_exponent y"
    by (rule mult_right_mono) simp
  then show ?thesis using nz True by (simp add: round_to_double_def)
next
  case False
  have y: "0 < y" using assms by simp
  have "binade x \<le> binade y" using assms by (rule binade_mono)
  with False have lt: "ulp_exponent x < ulp_exponent y" and biy: "- 1022 \<le> binade y"
    and ey: "ulp_exponent y = binade y - 52"
    by (auto simp: ulp_exponent_def max_def split: if_splits)
  have "round_to_double x \<le> 2 powi (ulp_exponent x + 53)"
    using assms(1) by (rule round_to_double_upper)
  also have "\<dots> \<le> 2 powi (binade y)"
    by (rule powi_mono) (use lt ey in simp)
  also have "\<dots> \<le> round_to_double y" using y biy by (rule round_to_double_lower)
  finally show ?thesis .
qed

lemma round_to_double_mono:
  assumes "x \<le> y"
  shows "round_to_double x \<le> round_to_double y"
proof -
  consider "0 < x" | "x \<le> 0" "0 \<le> y" | "y < 0" by linarith
  then show ?thesis
  proof cases
    case 1
    then show ?thesis using assms by (rule round_to_double_mono_pos)
  next
    case 2
    have "0 \<le> round_to_double (- x)" using 2(1) by (simp add: round_to_double_nonneg)
    then have "round_to_double x \<le> 0" by (simp add: round_to_double_minus)
    moreover have "0 \<le> round_to_double y" using 2(2) by (rule round_to_double_nonneg)
    ultimately show ?thesis by linarith
  next
    case 3
    have "round_to_double (- y) \<le> round_to_double (- x)"
      by (rule round_to_double_mono_pos) (use 3 assms in simp_all)
    then show ?thesis by (simp add: round_to_double_minus)
  qed
qed

lemma round_to_double_of_int:
  assumes "\<bar>n\<bar> < 2 ^ 53"
  shows "round_to_double (of_int n) = of_int n"
proof (cases "n = 0")
  case True
  then show ?thesis by (simp add: round_to_double_0)
next
  case False
  let ?x = "real_of_int n"
  let ?e = "ulp_exponent ?x"
  have nz: "?x \<noteq> 0" using False by simp
  have "real_of_int \<bar>n\<bar> < of_int (2 ^ 53)" using assms by (simp only: of_int_less_iff)
  then have "\<bar>?x\<bar> < 2 powi 53" by (simp add: power_int_def)
  moreover have "2 powi binade ?x \<le> \<bar>?x\<bar>" using binade_bounds [OF nz] by simp
  ultimately have "(2::real) powi binade ?x < 2 powi 53" by linarith
  then have "binade ?x < 53" by (rule powi_less_imp)
  then have le: "?e \<le> 0" by (simp add: ulp_exponent_def)
  define j where "j = nat (- ?e)"
  have q: "(2::real) powi ?e = 1 / 2 ^ j"
    using powi_neg_nat [of "- ?e"] le by (simp add: j_def)
  have "?x / 2 powi ?e = of_int (n * 2 ^ j)" by (simp add: q)
  then have "round_ties_to_even (?x / 2 powi ?e) = n * 2 ^ j" by (simp only: rte_of_int)
  then show ?thesis using nz by (simp add: round_to_double_def q)
qed

lemma round_to_double_error:
  "\<bar>round_to_double x - x\<bar> \<le> \<bar>x\<bar> / 2 ^ 53 + 2 powi (- 1075)"
proof (cases "x = 0")
  case True
  then show ?thesis by (simp add: round_to_double_0)
next
  case False
  let ?e = "ulp_exponent x"
  let ?q = "(2::real) powi ?e"
  let ?r = "real_of_int (round_ties_to_even (x / ?q))"
  have qpos: "0 < ?q" by simp
  have "\<bar>?r - x / ?q\<bar> \<le> 1 / 2" using rte_bounds [of "x / ?q"] by linarith
  then have "\<bar>?r - x / ?q\<bar> * ?q \<le> 1 / 2 * ?q" by (rule mult_right_mono) simp
  moreover have "\<bar>?r - x / ?q\<bar> * ?q = \<bar>?r * ?q - x\<bar>"
  proof -
    have "\<bar>?r - x / ?q\<bar> * ?q = \<bar>(?r - x / ?q) * ?q\<bar>" by (simp add: abs_mult)
    also have "(?r - x / ?q) * ?q = ?r * ?q - x" by (simp add: left_diff_distrib)
    finally show ?thesis .
  qed
  ultimately have err: "\<bar>round_to_double x - x\<bar> \<le> ?q / 2"
    using False by (simp add: round_to_double_def)
  show ?thesis
  proof (cases "- 1022 \<le> binade x")
    case True
    then have e: "?e = binade x - 52" by (simp add: ulp_exponent_def)
    have "?q = 2 powi binade x / 2 powi 52" unfolding e by (rule powi_diff [symmetric])
    also have "\<dots> \<le> \<bar>x\<bar> / 2 powi 52"
      by (rule divide_right_mono) (use binade_bounds [OF False] in simp_all)
    also have "\<dots> = \<bar>x\<bar> / 2 ^ 52" by (simp add: power_int_def)
    finally have "?q / 2 \<le> \<bar>x\<bar> / 2 ^ 53" by simp
    moreover have "0 \<le> (2::real) powi (- 1075)" by simp
    ultimately show ?thesis using err by linarith
  next
    case False
    then have e: "?e = - 1074" by (simp add: ulp_exponent_def)
    have "?q / 2 = 2 powi (- 1074) / 2 powi 1" unfolding e by simp
    also have "\<dots> = 2 powi (- 1075)" by (simp only: powi_diff) simp
    finally have "?q / 2 = 2 powi (- 1075)" .
    moreover have "0 \<le> \<bar>x\<bar> / 2 ^ 53" by simp
    ultimately show ?thesis using err by linarith
  qed
qed

subsection \<open>The operations on finite doubles\<close>

lemma round_to_double_abs_le:
  assumes "\<bar>x\<bar> \<le> of_int n" "n < 2 ^ 53"
  shows "\<bar>round_to_double x\<bar> \<le> of_int n"
proof -
  have n0: "0 \<le> n" using assms(1) by linarith
  then have a: "\<bar>n\<bar> < 2 ^ 53" "\<bar>- n\<bar> < 2 ^ 53" using assms(2) by simp_all
  have "round_to_double x \<le> round_to_double (of_int n)"
    by (rule round_to_double_mono) (use assms(1) in linarith)
  then have u: "round_to_double x \<le> of_int n" by (simp only: round_to_double_of_int [OF a(1)])
  have "round_to_double (of_int (- n)) \<le> round_to_double x"
    by (rule round_to_double_mono) (use assms(1) in simp)
  then have l: "of_int (- n) \<le> round_to_double x" by (simp only: round_to_double_of_int [OF a(2)])
  show ?thesis using u l by simp
qed

lemma round_to_double_le_int:
  assumes "x \<le> of_int n" "\<bar>n\<bar> < 2 ^ 53"
  shows "round_to_double x \<le> of_int n"
proof -
  have "round_to_double x \<le> round_to_double (of_int n)"
    using assms(1) by (rule round_to_double_mono)
  then show ?thesis by (simp only: round_to_double_of_int [OF assms(2)])
qed

lemma round_to_double_ge_int:
  assumes "of_int n \<le> x" "\<bar>n\<bar> < 2 ^ 53"
  shows "of_int n \<le> round_to_double x"
proof -
  have "round_to_double (of_int n) \<le> round_to_double x"
    using assms(1) by (rule round_to_double_mono)
  then show ?thesis by (simp only: round_to_double_of_int [OF assms(2)])
qed

lemma two_53_1024: "real_of_int n < 2 ^ 1024" if "n < 2 ^ 53"
proof -
  have "real_of_int n < of_int (2 ^ 53)" using that by (simp only: of_int_less_iff)
  also have "\<dots> \<le> 2 ^ 1024" by simp
  finally show ?thesis .
qed

lemma to_double_Finite:
  assumes "\<bar>x\<bar> \<le> of_int n" "n < 2 ^ 53" "negative \<longrightarrow> round_to_double x \<noteq> 0"
  shows "to_double negative x = Finite (round_to_double x)"
proof -
  have "\<bar>round_to_double x\<bar> \<le> of_int n" using assms(1,2) by (rule round_to_double_abs_le)
  then have "\<bar>round_to_double x\<bar> < 2 ^ 1024" using two_53_1024 [OF assms(2)] by linarith
  then show ?thesis using assms(3) by (auto simp: to_double_def Let_def signed_zero_def)
qed

lemma int_to_double_Finite:
  assumes "\<bar>i\<bar> < 2 ^ 53"
  shows "int_to_double i = Finite (of_int i)"
proof -
  have "\<bar>real_of_int i\<bar> \<le> of_int \<bar>i\<bar>" by simp
  then have "to_double False (of_int i) = Finite (round_to_double (of_int i))"
    using assms by (rule to_double_Finite) simp
  then show ?thesis by (simp only: int_to_double_def round_to_double_of_int [OF assms])
qed

lemma double_literal_0: "double_literal 0 = Finite 0"
  using to_double_Finite [of 0 0 False] by (simp add: double_literal_def round_to_double_0)

lemma double_literal_1: "double_literal 1 = Finite 1"
  using to_double_Finite [of 1 1 False] round_to_double_of_int [of 1]
  by (simp add: double_literal_def)

lemma double_div_nonneg:
  assumes "0 \<le> a" "0 < b" "a / b \<le> of_int n" "n < 2 ^ 53"
  shows "double_div (Finite a) (Finite b) = Finite (round_to_double (a / b))"
proof -
  have "\<bar>a / b\<bar> \<le> of_int n" using assms(1,2,3) by simp
  then have "to_double False (a / b) = Finite (round_to_double (a / b))"
    using assms(4) by (rule to_double_Finite) simp
  then show ?thesis using assms(1,2) by (simp add: double_div_def)
qed

lemma double_mul_nonneg:
  assumes "0 \<le> a" "0 \<le> b" "a * b \<le> of_int n" "n < 2 ^ 53"
  shows "double_mul (Finite a) (Finite b) = Finite (round_to_double (a * b))"
proof -
  have "\<bar>a * b\<bar> \<le> of_int n" using assms(1,2,3) by simp
  then have "to_double False (a * b) = Finite (round_to_double (a * b))"
    using assms(4) by (rule to_double_Finite) simp
  then show ?thesis using assms(1,2) by (simp add: double_mul_def)
qed

lemma double_add_nonneg:
  assumes "0 \<le> a" "0 \<le> b" "a + b \<le> of_int n" "n < 2 ^ 53"
  shows "double_add (Finite a) (Finite b) = Finite (round_to_double (a + b))"
proof -
  have "\<bar>a + b\<bar> \<le> of_int n" using assms(1,2,3) by simp
  then have "to_double False (a + b) = Finite (round_to_double (a + b))"
    using assms(4) by (rule to_double_Finite) simp
  then show ?thesis using assms(1,2)
    by (simp add: double_add_def signed_zero_def round_to_double_0)
qed

lemma std_ceil_nonneg: "0 \<le> r \<Longrightarrow> std_ceil (Finite r) = Finite (of_int \<lceil>r\<rceil>)"
  by simp

lemma std_round_nonneg: "0 \<le> r \<Longrightarrow> std_round (Finite r) = Finite (of_int \<lfloor>r + 1 / 2\<rfloor>)"
  by (simp add: round_half_away_from_zero_def)

lemma double_to_int_of_int:
  "- (2 ^ 31) \<le> n \<Longrightarrow> n < 2 ^ 31 \<Longrightarrow> double_to_int (Finite (of_int n)) = n"
  by (simp add: truncate_towards_zero_def)

lemma double_to_int_nonneg:
  assumes "0 \<le> r" "r \<le> of_int n" "n < 2 ^ 31"
  shows "double_to_int (Finite r) = \<lfloor>r\<rfloor>"
proof -
  have "real_of_int n \<le> of_int (2 ^ 31 - 1)" using assms(3) by (simp only: of_int_le_iff)
  then have "r < 2 ^ 31" using assms(2) by simp
  then show ?thesis using assms(1) by (simp add: truncate_towards_zero_def)
qed

subsection \<open>The clamp of the adaptive epsilon\<close>

lemma round_to_double_99: "round_to_double (99 / 100) = 8917127262193582 / 9007199254740992"
  by code_simp

lemma double_literal_99: "double_literal (99 / 100) = Finite (round_to_double (99 / 100))"
  unfolding double_literal_def
  by (rule to_double_Finite [of _ 1]) simp_all

lemma double_sub_1_not_NegZero: "double_sub p (Finite 1) \<noteq> NegZero"
  by (cases p)
     (auto simp: double_sub_def double_add_def to_double_def Let_def signed_zero_def
        signed_infinity_def)

text \<open>
  \<^verbatim>\<open>std::min(c, std::max(x, 0.0))\<close> is a finite double between 0 and \<open>c\<close> whatever
  \<open>x\<close> is: the clamped value of a finite \<open>x\<close>, 0 for \<open>-\<infinity>\<close>, and \<open>c\<close> for
  \<open>+\<infinity>\<close> and for a NaN.
\<close>

lemma std_min_max_range:
  assumes "x \<noteq> NegZero" "0 < c"
  shows "std_min (Finite c) (std_max x (Finite 0)) =
           Finite (value_of (std_min (Finite c) (std_max x (Finite 0)))) \<and>
         0 \<le> value_of (std_min (Finite c) (std_max x (Finite 0))) \<and>
         value_of (std_min (Finite c) (std_max x (Finite 0))) \<le> c \<and>
         (\<forall>v. x = Finite v \<longrightarrow> value_of (std_min (Finite c) (std_max x (Finite 0))) = clamp v 0 c)"
  using assms by (cases x) (auto simp: std_min_def std_max_def clamp_def)

subsection \<open>Scaled weights\<close>

lemma of_int_bound: "\<bar>i\<bar> < 2 ^ 31 \<Longrightarrow> \<bar>i\<bar> < (2 ^ 53 :: int)"
  by simp

lemma ceiling_close:
  fixes x y :: real
  assumes "\<bar>y - x\<bar> < 1"
  shows "\<bar>\<lceil>y\<rceil> - \<lceil>x\<rceil>\<bar> \<le> 1"
  using assms by linarith

lemma tiny_le: "(2::real) powi (- 1075) \<le> 1 / 2 ^ 53"
proof -
  have "(2::real) powi (- 1075) \<le> 2 powi (- 53)" by (rule powi_mono) simp
  also have "\<dots> = 1 / 2 ^ 53" using powi_neg_nat [of 53] by simp
  finally show ?thesis .
qed

lemma round_to_double_error': "\<bar>round_to_double x - x\<bar> \<le> (\<bar>x\<bar> + 1) * (1 / 2 ^ 53)"
proof -
  have "\<bar>round_to_double x - x\<bar> \<le> \<bar>x\<bar> / 2 ^ 53 + 2 powi (- 1075)"
    by (rule round_to_double_error)
  also have "\<dots> \<le> \<bar>x\<bar> / 2 ^ 53 + 1 / 2 ^ 53" using tiny_le by linarith
  also have "\<dots> = (\<bar>x\<bar> + 1) * (1 / 2 ^ 53)" by (simp add: algebra_simps)
  finally show ?thesis .
qed

text \<open>
  \<^verbatim>\<open>ceil(a * m)\<close> for a double \<open>a = round_to_double q\<close> with \<open>0 \<le> q \<le> 1\<close> and a
  weight \<open>m\<close>: the two roundings move the product by less than 1, so the result is
  within one of the exact \<open>\<lceil>q * m\<rceil>\<close>.
\<close>

lemma scaled_ceiling:
  assumes "0 \<le> q" "q \<le> 1" "0 \<le> m" "m < 2 ^ 31"
  defines "y \<equiv> round_to_double (round_to_double q * real_of_int m)"
  shows "std_ceil (double_mul (Finite (round_to_double q)) (int_to_double m)) = Finite (of_int \<lceil>y\<rceil>)"
    and "0 \<le> \<lceil>y\<rceil>" and "\<lceil>y\<rceil> \<le> m"
    and "\<bar>\<lceil>y\<rceil> - \<lceil>q * real_of_int m\<rceil>\<bar> \<le> 1"
proof -
  let ?a = "round_to_double q"
  have im: "int_to_double m = Finite (of_int m)"
    using assms(3,4) by (simp add: int_to_double_Finite)
  have a: "0 \<le> ?a" "?a \<le> 1"
    using round_to_double_nonneg [OF assms(1)] round_to_double_le_int [of q 1] assms(2) by simp_all
  have w: "0 \<le> real_of_int m" using assms(3) by simp
  have aw: "0 \<le> ?a * real_of_int m" "?a * real_of_int m \<le> real_of_int m"
    using a w by (simp_all add: mult_left_le_one_le)
  have m53: "\<bar>m\<bar> < 2 ^ 53" using assms(3,4) by simp
  have mul: "double_mul (Finite ?a) (Finite (of_int m)) = Finite y"
    unfolding y_def by (rule double_mul_nonneg [of _ _ m]) (use a w aw m53 in simp_all)
  have y: "0 \<le> y" "y \<le> of_int m"
    unfolding y_def
    using round_to_double_nonneg [OF aw(1)] round_to_double_le_int [OF aw(2) m53] by simp_all
  show "std_ceil (double_mul (Finite ?a) (int_to_double m)) = Finite (of_int \<lceil>y\<rceil>)"
    unfolding im mul using y(1) by (rule std_ceil_nonneg)
  show "0 \<le> \<lceil>y\<rceil>" using y(1) by simp
  show "\<lceil>y\<rceil> \<le> m" using y(2) by (simp add: ceiling_le_iff)
  define u :: real where "u = 1 / 2 ^ 53"
  have u: "0 < u" "(3 * 2 ^ 31 + 1) * u < 1" by (simp_all add: u_def)
  have e1: "\<bar>?a - q\<bar> \<le> 2 * u"
  proof -
    have "\<bar>?a - q\<bar> \<le> (\<bar>q\<bar> + 1) * u" unfolding u_def by (rule round_to_double_error')
    also have "\<dots> \<le> (1 + 1) * u" by (rule mult_right_mono) (use assms(1,2) u(1) in simp_all)
    finally show ?thesis by simp
  qed
  have e2: "\<bar>y - ?a * real_of_int m\<bar> \<le> (real_of_int m + 1) * u"
  proof -
    have "\<bar>y - ?a * real_of_int m\<bar> \<le> (\<bar>?a * real_of_int m\<bar> + 1) * u"
      unfolding y_def u_def by (rule round_to_double_error')
    also have "\<dots> \<le> (real_of_int m + 1) * u"
      by (rule mult_right_mono) (use aw u(1) in simp_all)
    finally show ?thesis .
  qed
  have "?a * real_of_int m - q * real_of_int m = (?a - q) * real_of_int m"
    by (rule left_diff_distrib [symmetric])
  then have "\<bar>?a * real_of_int m - q * real_of_int m\<bar> = \<bar>(?a - q) * real_of_int m\<bar>"
    by (rule arg_cong)
  also have "\<dots> = \<bar>?a - q\<bar> * real_of_int m"
    using w by (simp only: abs_mult abs_of_nonneg)
  also have "\<dots> \<le> 2 * u * real_of_int m"
    using e1 w by (rule mult_right_mono)
  finally have e3: "\<bar>?a * real_of_int m - q * real_of_int m\<bar> \<le> 2 * u * real_of_int m" .
  have mb: "real_of_int m \<le> 2 ^ 31"
  proof -
    have "m \<le> 2 ^ 31" using assms(4) by simp
    then have "real_of_int m \<le> of_int (2 ^ 31)" by (simp only: of_int_le_iff)
    then show ?thesis by simp
  qed
  have "\<bar>y - q * real_of_int m\<bar> \<le> (real_of_int m + 1) * u + 2 * u * real_of_int m"
    using e2 e3 by linarith
  also have "\<dots> = (3 * real_of_int m + 1) * u" by (simp add: algebra_simps)
  also have "\<dots> \<le> (3 * 2 ^ 31 + 1) * u"
    by (rule mult_right_mono) (use mb u(1) in simp_all)
  also have "\<dots> < 1" by (rule u(2))
  finally have "\<bar>y - q * real_of_int m\<bar> < 1" .
  then show "\<bar>\<lceil>y\<rceil> - \<lceil>q * real_of_int m\<rceil>\<bar> \<le> 1" by (rule ceiling_close)
qed

lemma int32_ceiling:
  assumes "0 \<le> n" "n \<le> m" "m < 2 ^ 31"
  shows "double_to_int (Finite (of_int n)) = n"
proof -
  have "(0::int) \<le> 2 ^ 31" by simp
  with assms have "- (2 ^ 31) \<le> n" "n < 2 ^ 31" by linarith+
  then show ?thesis by (rule double_to_int_of_int)
qed

lemma perfect_weight_value:
  assumes "0 \<le> j" "j \<le> k" "0 < k" "k < 2 ^ 31" "0 \<le> W" "W < 2 ^ 31"
  defines "y \<equiv> round_to_double (round_to_double (real_of_int j / real_of_int k) * real_of_int W)"
  shows "double_to_int (std_ceil (double_mul (double_div (int_to_double j) (int_to_double k))
            (int_to_double W))) = \<lceil>y\<rceil>"
    and "0 \<le> \<lceil>y\<rceil>" and "\<lceil>y\<rceil> \<le> W"
    and "\<bar>\<lceil>y\<rceil> - \<lceil>real_of_int j / real_of_int k * real_of_int W\<rceil>\<bar> \<le> 1"
proof -
  let ?q = "real_of_int j / real_of_int k"
  have q: "0 \<le> ?q" "?q \<le> 1" using assms(1,2,3) by simp_all
  have ij: "int_to_double j = Finite (of_int j)" "int_to_double k = Finite (of_int k)"
    using assms(1-4) by (simp_all add: int_to_double_Finite)
  have d: "double_div (Finite (of_int j)) (Finite (of_int k)) = Finite (round_to_double ?q)"
    by (rule double_div_nonneg [of _ _ 1]) (use assms(1,3) q in simp_all)
  note s = scaled_ceiling [OF q assms(5,6), folded y_def]
  show "0 \<le> \<lceil>y\<rceil>" "\<lceil>y\<rceil> \<le> W"
    "\<bar>\<lceil>y\<rceil> - \<lceil>real_of_int j / real_of_int k * real_of_int W\<rceil>\<bar> \<le> 1"
    by (rule s(2), rule s(3), rule s(4))
  show "double_to_int (std_ceil (double_mul (double_div (int_to_double j) (int_to_double k))
            (int_to_double W))) = \<lceil>y\<rceil>"
    unfolding ij d s(1) by (rule int32_ceiling [OF s(2,3) assms(6)])
qed

lemma one_plus_epsilon:
  assumes "0 \<le> e" "e \<le> 1"
  shows "double_add (int_to_double 1) (Finite e) = Finite (round_to_double (1 + e))"
    and "1 \<le> round_to_double (1 + e)" and "round_to_double (1 + e) \<le> 2"
proof -
  have i: "int_to_double 1 = Finite 1" using int_to_double_Finite [of 1] by simp
  show "double_add (int_to_double 1) (Finite e) = Finite (round_to_double (1 + e))"
    unfolding i by (rule double_add_nonneg [of _ _ 2]) (use assms in simp_all)
  show "1 \<le> round_to_double (1 + e)"
    using round_to_double_ge_int [of 1 "1 + e"] assms by simp
  show "round_to_double (1 + e) \<le> 2"
    using round_to_double_le_int [of "1 + e" 2] assms by simp
qed

lemma scaled_weight:
  assumes "0 \<le> e" "e \<le> 1" "0 \<le> p" "p < 2 ^ 30"
  defines "z \<equiv> round_to_double (round_to_double (1 + e) * real_of_int p)"
  shows "double_mul (double_add (int_to_double 1) (Finite e)) (int_to_double p) = Finite z"
    and "0 \<le> z" and "z \<le> of_int (2 * p)"
proof -
  let ?u = "round_to_double (1 + e)"
  note u = one_plus_epsilon [OF assms(1,2)]
  have p53: "\<bar>p\<bar> < 2 ^ 53" "\<bar>2 * p\<bar> < 2 ^ 53" using assms(3,4) by simp_all
  have ip: "int_to_double p = Finite (of_int p)" using p53(1) by (rule int_to_double_Finite)
  have rp: "0 \<le> real_of_int p" using assms(3) by simp
  have up: "0 \<le> ?u * real_of_int p" "?u * real_of_int p \<le> of_int (2 * p)"
    using u(2,3) rp by (simp_all add: mult_right_mono)
  show "double_mul (double_add (int_to_double 1) (Finite e)) (int_to_double p) = Finite z"
    unfolding u(1) ip z_def
    by (rule double_mul_nonneg [of _ _ "2 * p"]) (use u(2) rp up p53 in simp_all)
  show "0 \<le> z" unfolding z_def using up(1) by (rule round_to_double_nonneg)
  show "z \<le> of_int (2 * p)" unfolding z_def using up(2) p53(2) by (rule round_to_double_le_int)
qed

lemma max_weight_value:
  assumes "0 \<le> e" "e \<le> 1" "0 \<le> p" "p < 2 ^ 30"
  shows "double_to_int (double_mul (double_add (int_to_double 1) (Finite e)) (int_to_double p)) =
           \<lfloor>round_to_double (round_to_double (1 + e) * real_of_int p)\<rfloor>"
  unfolding scaled_weight(1) [OF assms]
  by (rule double_to_int_nonneg [OF scaled_weight(2,3) [OF assms]]) (use assms(4) in simp)

lemma c99_bounds: "0 < round_to_double (99 / 100)" "round_to_double (99 / 100) \<le> 99 / 100"
  by (simp_all add: round_to_double_99)

lemma half_bounds:
  assumes "2 \<le> k"
  shows "0 \<le> \<lceil>real_of_int k / 2\<rceil>" "\<lceil>real_of_int k / 2\<rceil> \<le> k"
        "0 \<le> \<lfloor>real_of_int k / 2\<rfloor>" "\<lfloor>real_of_int k / 2\<rfloor> \<le> k"
  using assms by linarith+

lemma adaptive_epsilon_range:
  fixes x :: double
  defines "E \<equiv> std_min (double_literal (99 / 100))
                   (std_max (double_sub x (double_literal 1)) (double_literal 0))"
  shows "E = std_min (Finite (round_to_double (99 / 100)))
               (std_max (double_sub x (Finite 1)) (Finite 0))"
    and "E = Finite (value_of E)" and "0 \<le> value_of E" and "value_of E \<le> 99 / 100"
    and "double_sub x (Finite 1) = Finite v \<Longrightarrow> value_of E = clamp v 0 (round_to_double (99 / 100))"
proof -
  show a: "E = std_min (Finite (round_to_double (99 / 100)))
               (std_max (double_sub x (Finite 1)) (Finite 0))"
    by (simp add: E_def double_literal_0 double_literal_1 double_literal_99)
  note r = std_min_max_range [OF double_sub_1_not_NegZero c99_bounds(1), of x, folded a]
  show "E = Finite (value_of E)" using r by simp
  show "0 \<le> value_of E" using r by simp
  show "value_of E \<le> 99 / 100" using r c99_bounds(2) by linarith
  show "value_of E = clamp v 0 (round_to_double (99 / 100))" if "double_sub x (Finite 1) = Finite v"
    using r that by simp
qed

lemma rounded_weight_value:
  assumes "0 \<le> e" "e \<le> 1" "0 \<le> p" "p < 2 ^ 30"
  shows "double_to_int (std_round (double_mul (double_add (int_to_double 1) (Finite e))
                                               (int_to_double p))) =
           round_half_away_from_zero (round_to_double (round_to_double (1 + e) * real_of_int p))"
proof -
  let ?z = "round_to_double (round_to_double (1 + e) * real_of_int p)"
  note s = scaled_weight [OF assms]
  have r: "round_half_away_from_zero ?z = \<lfloor>?z + 1 / 2\<rfloor>"
    using s(2) by (simp add: round_half_away_from_zero_def)
  have "?z + 1 / 2 < of_int (2 * p + 1)" using s(3) by simp
  then have u: "\<lfloor>?z + 1 / 2\<rfloor> < 2 * p + 1" by (simp only: floor_less_iff)
  have l: "0 \<le> \<lfloor>?z + 1 / 2\<rfloor>" using s(2) by simp
  have "double_to_int (Finite (of_int \<lfloor>?z + 1 / 2\<rfloor>)) = \<lfloor>?z + 1 / 2\<rfloor>"
    by (rule int32_ceiling [OF l, of "2 * p"]) (use u assms(4) in simp_all)
  then show ?thesis
    unfolding s(1) std_round_nonneg [OF s(2)] r .
qed

subsection \<open>The loops of the individual-weights branch\<close>

lemma int32_t_id': "0 \<le> x \<Longrightarrow> x < 2 ^ 31 \<Longrightarrow> int32_t x = x"
  by (simp add: int32_t_def)

lemma accumulate_fold:
  "\<forall>m\<in>set M. 0 \<le> m \<Longrightarrow> 0 \<le> a \<Longrightarrow> a + sum_list M < 2 ^ 31 \<Longrightarrow>
   fold (\<lambda>x acc. int32_t (acc + x)) M a = a + sum_list M"
proof (induction M arbitrary: a)
  case Nil
  then show ?case by simp
next
  case (Cons m M)
  have nn: "0 \<le> sum_list M" using Cons.prems(1) by (simp add: sum_list_nonneg)
  have m: "0 \<le> m" using Cons.prems(1) by simp
  have w: "int32_t (a + m) = a + m"
    by (rule int32_t_id') (use Cons.prems(2,3) m nn in simp_all)
  have "fold (\<lambda>x acc. int32_t (acc + x)) M (a + m) = a + m + sum_list M"
    by (rule Cons.IH) (use Cons.prems m in simp_all)
  then show ?case by (simp add: w)
qed

lemma accumulate_eq:
  "\<forall>m\<in>set M. 0 \<le> m \<Longrightarrow> sum_list M < 2 ^ 31 \<Longrightarrow> accumulate M = sum_list M"
  using accumulate_fold [of M 0] by (simp add: accumulate_def)

lemma nth_le_sum_list:
  assumes "\<forall>m\<in>set M. (0::int) \<le> m" "i < length M"
  shows "M ! i \<le> sum_list M"
  using assms by (metis member_le_sum_list nth_mem)

lemma sum_nth_le_sum_list:
  assumes "\<forall>m\<in>set M. (0::int) \<le> m" "b \<le> length M"
  shows "(\<Sum>i = a..<b. M ! i) \<le> sum_list M"
proof -
  have "(\<Sum>i = a..<b. M ! i) \<le> (\<Sum>i = 0..<length M. M ! i)"
    by (rule sum_mono2) (use assms in auto)
  then show ?thesis by (simp add: sum_list_sum_nth)
qed

text \<open>One round of the loop \<^verbatim>\<open>perfect_weight += ceil(weight_fraction * max_part_weights[i])\<close>.\<close>

lemma sum_ceil_step:
  assumes "0 \<le> q" "q \<le> 1" "0 \<le> m" "0 \<le> p" "p + m < 2 ^ 31"
  shows "double_to_int (double_add (int_to_double p)
           (std_ceil (double_mul (Finite (round_to_double q)) (int_to_double m)))) =
         p + \<lceil>round_to_double (round_to_double q * real_of_int m)\<rceil>"
proof -
  let ?t = "\<lceil>round_to_double (round_to_double q * real_of_int m)\<rceil>"
  have m31: "m < 2 ^ 31" using assms(4,5) by simp
  note s = scaled_ceiling [OF assms(1,2,3) m31]
  have p53: "\<bar>p\<bar> < 2 ^ 53" using assms(3,4,5) by simp
  have pt: "0 \<le> p + ?t" "p + ?t < 2 ^ 31" using s(2,3) assms(4,5) by linarith+
  then have pt53: "\<bar>p + ?t\<bar> < 2 ^ 53" by simp
  have "double_add (Finite (of_int p)) (Finite (of_int ?t)) =
          Finite (round_to_double (real_of_int p + real_of_int ?t))"
    by (rule double_add_nonneg [of _ _ "p + ?t"]) (use assms(4) s(2) pt53 in simp_all)
  also have "real_of_int p + real_of_int ?t = of_int (p + ?t)" by simp
  also have "round_to_double (of_int (p + ?t)) = of_int (p + ?t)"
    using pt53 by (rule round_to_double_of_int)
  finally have "double_add (int_to_double p)
           (std_ceil (double_mul (Finite (round_to_double q)) (int_to_double m))) =
         Finite (of_int (p + ?t))"
    by (simp only: s(1) int_to_double_Finite [OF p53])
  moreover have "(0::int) \<le> 2 ^ 31" by simp
  then have "double_to_int (Finite (of_int (p + ?t))) = p + ?t"
    using pt by (intro double_to_int_of_int) linarith+
  ultimately show ?thesis by (simp only:)
qed

lemma sum_ceil_weights_eq:
  assumes "0 \<le> q" "q \<le> 1" "\<forall>m\<in>set M. 0 \<le> m" "sum_list M < 2 ^ 31"
    and "0 \<le> a" "a \<le> b" "b \<le> int (length M)"
  shows "sum_ceil_weights (Finite (round_to_double q)) M a b =
           (\<Sum>i = nat a..<nat b. \<lceil>round_to_double (round_to_double q * real_of_int (M ! i))\<rceil>)"
  using assms(6,7)
proof (induction b rule: int_ge_induct)
  case base
  then show ?case by (simp add: sum_ceil_weights_def)
next
  case (step b)
  let ?t = "\<lambda>i. \<lceil>round_to_double (round_to_double q * real_of_int (M ! i))\<rceil>"
  have up: "[a..b + 1 - 1] = [a..b - 1] @ [b]"
    using step.hyps upto_rec2 [of a b] by simp
  have b: "nat b < length M" "0 \<le> b" "b < int (length M)"
    using step.prems step.hyps assms(5) by simp_all
  have at: "vec_at M b = M ! nat b"
    using b by (simp add: vec_at_def)
  have nb: "nat (b + 1) = Suc (nat b)" using b by simp
  have le: "nat a \<le> nat b" using step.hyps by simp
  have ih: "sum_ceil_weights (Finite (round_to_double q)) M a b = (\<Sum>i = nat a..<nat b. ?t i)"
    using step.IH step.prems by simp
  have mb: "0 \<le> M ! nat b" using assms(3) b(1) by simp
  have tle: "?t i \<le> M ! i" "0 \<le> ?t i" if "i < length M" for i
  proof -
    have "0 \<le> M ! i" using assms(3) that by simp
    moreover have "M ! i < 2 ^ 31" using nth_le_sum_list [OF assms(3) that] assms(4) by simp
    ultimately show "?t i \<le> M ! i" "0 \<le> ?t i"
      using scaled_ceiling(2,3) [OF assms(1,2), of "M ! i"] by simp_all
  qed
  have "(\<Sum>i = nat a..<nat b. ?t i) \<le> (\<Sum>i = nat a..<nat b. M ! i)"
    by (rule sum_mono) (use tle b(1) in simp)
  moreover have "(\<Sum>i = nat a..<nat b. M ! i) + M ! nat b = (\<Sum>i = nat a..<Suc (nat b). M ! i)"
    using le by (rule sum.atLeastLessThan_Suc [symmetric])
  moreover have "(\<Sum>i = nat a..<Suc (nat b). M ! i) \<le> sum_list M"
    by (rule sum_nth_le_sum_list [OF assms(3)]) (use b(1) in simp)
  ultimately have bound: "(\<Sum>i = nat a..<nat b. ?t i) + M ! nat b < 2 ^ 31"
    using assms(4) by linarith
  have nn: "0 \<le> (\<Sum>i = nat a..<nat b. ?t i)"
    by (rule sum_nonneg) (use tle b(1) in simp)
  have "sum_ceil_weights (Finite (round_to_double q)) M a (b + 1) =
          double_to_int (double_add (int_to_double (sum_ceil_weights (Finite (round_to_double q)) M a b))
            (std_ceil (double_mul (Finite (round_to_double q)) (int_to_double (M ! nat b)))))"
    unfolding sum_ceil_weights_def up by (simp add: at)
  also have "\<dots> = (\<Sum>i = nat a..<nat b. ?t i) + ?t (nat b)"
    unfolding ih by (rule sum_ceil_step [OF assms(1,2) mb nn bound])
  also have "\<dots> = (\<Sum>i = nat a..<nat (b + 1). ?t i)"
    unfolding nb using le by (rule sum.atLeastLessThan_Suc [symmetric])
  finally show ?case .
qed

subsection \<open>The fields set by setupBipartitioningContext\<close>

lemma keeps_part_weights_id: "keeps_part_weights (\<lambda>w c. c)"
  by (simp add: keeps_part_weights_def)

lemma setupBipartitioningContext_default_fields:
  assumes "\<not> partition_use_individual_part_weights context"
    and "keeps_part_weights setupDerivedParameters"
  shows "partition_epsilon (setupBipartitioningContext libm setupDerivedParameters hypergraph context info) =
           computeAdaptiveEpsilon libm info (totalWeight hypergraph) (partition_k context)"
    and "partition_perfect_balance_part_weights
           (setupBipartitioningContext libm setupDerivedParameters hypergraph context info) =
           [double_to_int (std_ceil (double_mul
              (double_div
                 (int_to_double (cpp_div (partition_k context) 2
                                 + (if cpp_mod (partition_k context) 2 \<noteq> 0 then 1 else 0)))
                 (int_to_double (partition_k context)))
              (int_to_double (totalWeight hypergraph)))),
            double_to_int (std_ceil (double_mul
              (double_div (int_to_double (cpp_div (partition_k context) 2))
                 (int_to_double (partition_k context)))
              (int_to_double (totalWeight hypergraph))))]"
    and "partition_max_part_weights
           (setupBipartitioningContext libm setupDerivedParameters hypergraph context info) =
           map (\<lambda>p. double_to_int
                      (double_mul
                         (double_add (int_to_double 1)
                            (computeAdaptiveEpsilon libm info (totalWeight hypergraph)
                               (partition_k context)))
                         (int_to_double p)))
               (partition_perfect_balance_part_weights
                  (setupBipartitioningContext libm setupDerivedParameters hypergraph context info))"
proof -
  have keep: "\<And>w c. partition_epsilon (setupDerivedParameters w c) = partition_epsilon c"
    "\<And>w c. partition_perfect_balance_part_weights (setupDerivedParameters w c) =
        partition_perfect_balance_part_weights c"
    "\<And>w c. partition_max_part_weights (setupDerivedParameters w c) = partition_max_part_weights c"
    using assms(2) by (simp_all add: keeps_part_weights_def)
  show "partition_epsilon (setupBipartitioningContext libm setupDerivedParameters hypergraph context info) =
           computeAdaptiveEpsilon libm info (totalWeight hypergraph) (partition_k context)"
    unfolding setupBipartitioningContext_def Let_def
    by (simp only: assms(1) if_False) (simp add: keep)
  show p: "partition_perfect_balance_part_weights
           (setupBipartitioningContext libm setupDerivedParameters hypergraph context info) =
           [double_to_int (std_ceil (double_mul
              (double_div
                 (int_to_double (cpp_div (partition_k context) 2
                                 + (if cpp_mod (partition_k context) 2 \<noteq> 0 then 1 else 0)))
                 (int_to_double (partition_k context)))
              (int_to_double (totalWeight hypergraph)))),
            double_to_int (std_ceil (double_mul
              (double_div (int_to_double (cpp_div (partition_k context) 2))
                 (int_to_double (partition_k context)))
              (int_to_double (totalWeight hypergraph))))]"
    unfolding setupBipartitioningContext_def Let_def
    by (simp only: assms(1) if_False) (simp add: keep)
  show "partition_max_part_weights
           (setupBipartitioningContext libm setupDerivedParameters hypergraph context info) =
           map (\<lambda>p. double_to_int
                      (double_mul
                         (double_add (int_to_double 1)
                            (computeAdaptiveEpsilon libm info (totalWeight hypergraph)
                               (partition_k context)))
                         (int_to_double p)))
               (partition_perfect_balance_part_weights
                  (setupBipartitioningContext libm setupDerivedParameters hypergraph context info))"
    unfolding p unfolding setupBipartitioningContext_def Let_def
    by (simp only: assms(1) if_False) (simp add: keep)
qed

subsection \<open>Evaluation on concrete values\<close>

lemma to_double_eval:
  "\<bar>x\<bar> \<le> 2 ^ 52 \<Longrightarrow> to_double False x = Finite (round_to_double x)"
  using to_double_Finite [of x "2 ^ 52" False] by simp

lemma double_literal_eval:
  "\<bar>x\<bar> \<le> 2 ^ 52 \<Longrightarrow> double_literal x = Finite (round_to_double x)"
  by (simp add: double_literal_def to_double_eval)

lemma int_to_double_eval: "\<bar>i\<bar> < 2 ^ 53 \<Longrightarrow> int_to_double i = Finite (of_int i)"
  by (rule int_to_double_Finite)

lemma double_div_eval:
  "0 \<le> a \<Longrightarrow> 0 < b \<Longrightarrow> a / b \<le> 2 ^ 52 \<Longrightarrow>
   double_div (Finite a) (Finite b) = Finite (round_to_double (a / b))"
  using double_div_nonneg [of a b "2 ^ 52"] by simp

lemma double_mul_eval:
  "0 \<le> a \<Longrightarrow> 0 \<le> b \<Longrightarrow> a * b \<le> 2 ^ 52 \<Longrightarrow>
   double_mul (Finite a) (Finite b) = Finite (round_to_double (a * b))"
  using double_mul_nonneg [of a b "2 ^ 52"] by simp

lemma double_add_eval:
  "0 \<le> a \<Longrightarrow> 0 \<le> b \<Longrightarrow> a + b \<le> 2 ^ 52 \<Longrightarrow>
   double_add (Finite a) (Finite b) = Finite (round_to_double (a + b))"
  using double_add_nonneg [of a b "2 ^ 52"] by simp

lemma double_sub_eval:
  assumes "0 \<le> b" "b \<le> a" "a \<le> 2 ^ 52"
  shows "double_sub (Finite a) (Finite b) = Finite (round_to_double (a - b))"
proof -
  have "\<bar>a - b\<bar> \<le> 2 ^ 52" using assms by simp
  then have "to_double False (a - b) = Finite (round_to_double (a - b))" by (rule to_double_eval)
  then show ?thesis
    using assms by (auto simp: double_sub_def double_add_def signed_zero_def round_to_double_0)
qed

lemma round_to_double_numeral:
  "(numeral n :: int) < 2 ^ 53 \<Longrightarrow> round_to_double (numeral n) = numeral n"
  using round_to_double_of_int [of "numeral n"] by simp

lemma round_to_double_1: "round_to_double 1 = 1"
  using round_to_double_of_int [of 1] by simp

lemmas double_eval =
  to_double_eval double_literal_eval int_to_double_eval double_div_eval double_mul_eval
  double_add_eval double_sub_eval round_to_double_numeral round_to_double_1 round_to_double_0
  std_min_def std_max_def truncate_towards_zero_def round_half_away_from_zero_def

subsection \<open>Values on the examples\<close>

lemma round_to_double_3_2: "round_to_double (3 / 2) = 3 / 2"
  by code_simp

lemma round_to_double_1_2: "round_to_double (1 / 2) = 1 / 2"
  by code_simp

lemma round_to_double_15_29:
  "round_to_double (15 / 29) = 4658896166245341 / 9007199254740992"
  "round_to_double (135107988821114889 / 9007199254740992) = 8444249301319681 / 562949953421312"
  by code_simp+

lemma round_to_double_14_29:
  "round_to_double (14 / 29) = 8696606176991303 / 18014398509481984"
  "round_to_double (252201579132747787 / 18014398509481984) = 7881299347898368 / 562949953421312"
  by code_simp+

lemma log2_2: "std_log2 correctly_rounded_libm (Finite 2) = Finite 1"
  by (simp add: correctly_rounded_libm_def double_eval)

lemma pow_1: "0 < a \<Longrightarrow> a \<le> 2 ^ 52 \<Longrightarrow>
  std_pow correctly_rounded_libm (Finite a) (Finite 1) = Finite (round_to_double a)"
  by (simp add: correctly_rounded_libm_def double_eval)

lemma example_epsilon:
  "computeAdaptiveEpsilon correctly_rounded_libm example_info 2 2 = Finite (1 / 2)"
  by (simp add: computeAdaptiveEpsilon_def example_info_def Let_def double_eval log2_2 pow_1
      round_to_double_3_2 round_to_double_1_2 round_to_double_99)

lemma example_perfect:
  "double_to_int (std_ceil (double_mul (double_div (int_to_double 1) (int_to_double 2))
     (int_to_double 2))) = 1"
  by (simp add: double_eval round_to_double_1_2)

lemma example_max:
  "double_to_int (double_mul (double_add (int_to_double 1) (Finite (1 / 2))) (int_to_double 1)) = 1"
  by (simp add: double_eval round_to_double_3_2)

lemma example29_perfect:
  "double_to_int (std_ceil (double_mul (double_div (int_to_double 15) (int_to_double 29))
     (int_to_double 29))) = 16"
  "double_to_int (std_ceil (double_mul (double_div (int_to_double 14) (int_to_double 29))
     (int_to_double 29))) = 14"
  by (simp_all add: double_eval round_to_double_15_29 round_to_double_14_29)

lemma round_to_double_8_5:
  "round_to_double (8 / 5) = 3602879701896397 / 2251799813685248"
  "round_to_double (3602879701896397 / 2251799813685248) = 3602879701896397 / 2251799813685248"
  "round_to_double (1351079888211149 / 2251799813685248) = 1351079888211149 / 2251799813685248"
  "round_to_double (3602879701896397 / 1125899906842624) = 3602879701896397 / 1125899906842624"
  "round_to_double (10808639105689191 / 2251799813685248) = 1351079888211149 / 281474976710656"
  by code_simp+

lemma round_to_double_5_2: "round_to_double (5 / 2) = 5 / 2"
  by code_simp

lemma round_to_double_7_25:
  "round_to_double (7 / 25) = 1261007895663739 / 4503599627370496"
  "round_to_double (31525197391593475 / 4503599627370496) = 7881299347898369 / 1125899906842624"
  by code_simp+

lemma setupBipartitioningContext_individual_fields:
  assumes "partition_use_individual_part_weights context"
    and "keeps_part_weights setupDerivedParameters"
  shows "partition_perfect_balance_part_weights
           (setupBipartitioningContext libm setupDerivedParameters hypergraph context info) =
           (let k = partition_k context; M = partition_max_part_weights context;
                k0 = cpp_div k 2 + (if cpp_mod k 2 \<noteq> 0 then 1 else 0);
                weight_fraction = double_div (int_to_double (totalWeight hypergraph))
                                             (int_to_double (accumulate M))
            in [sum_ceil_weights weight_fraction M 0 k0, sum_ceil_weights weight_fraction M k0 k])"
proof -
  have keep: "\<And>w c. partition_perfect_balance_part_weights (setupDerivedParameters w c) =
        partition_perfect_balance_part_weights c"
    using assms(2) by (simp add: keeps_part_weights_def)
  show ?thesis
    unfolding setupBipartitioningContext_def Let_def
    by (simp only: assms(1) if_True) (simp add: keep)
qed

subsection \<open>setupBipartitioningContext\<close>

text \<open>
  C1 (as amended). Without individual part weights, for \<open>2 \<le> k < 2^31\<close> and a total
  weight \<open>0 \<le> W < 2^30\<close>, \<^verbatim>\<open>setupBipartitioningContext\<close> computes in binary64
  arithmetic, every operation rounded to the nearest double:
  epsilon is \<open>min(0.99, max(x, 0))\<close> with \<open>x = pow(base, 1 / ceil(log2(k))) - 1\<close> and
  \<open>base = ceil(W\<^sub>0 / k\<^sub>0) / ceil(W / k) * (1 + \<epsilon>\<^sub>0)\<close>, and 0 when \<open>W = 0\<close>; it is
  a finite double between 0 and 0.99, the clamp of \<open>x\<close> whenever \<open>x\<close> is finite. The
  perfect-balance part weights are \<open>ceil(\<lceil>k/2\<rceil> / k * W)\<close> and \<open>ceil(\<lfloor>k/2\<rfloor> / k * W)\<close>
  as computed with two roundings, each within one of the exact ceiling. Each max part
  weight is \<open>(1 + epsilon)\<close> times the corresponding perfect weight as computed with two
  roundings, truncated towards zero to an integer weight. \<^verbatim>\<open>pow\<close> and \<^verbatim>\<open>log2\<close> are
  those of an arbitrary mathematical library.
\<close>

theorem setupBipartitioningContext_default:
  assumes "\<not> partition_use_individual_part_weights context"
    and "2 \<le> partition_k context" and "partition_k context < 2 ^ 31"
    and "0 \<le> totalWeight hypergraph" and "totalWeight hypergraph < 2 ^ 30"
    and "keeps_part_weights setupDerivedParameters"
  shows
    "(let W = totalWeight hypergraph;
          k = partition_k context;
          b_context = setupBipartitioningContext libm setupDerivedParameters hypergraph context info;
          base = double_mul
                   (double_div
                      (std_ceil (double_div (int_to_double (original_hypergraph_weight info))
                                            (int_to_double (original_k info))))
                      (Finite (of_int \<lceil>round_to_double (real_of_int W / real_of_int k)\<rceil>)))
                   (double_add (Finite 1) (original_epsilon info));
          x = double_sub
                (std_pow libm base
                   (double_div (Finite 1) (std_ceil (std_log2 libm (Finite (of_int k))))))
                (Finite 1);
          c = round_to_double (99 / 100);
          epsilon' = partition_epsilon b_context;
          e = value_of epsilon';
          perfect_0 = \<lceil>round_to_double
                        (round_to_double (real_of_int \<lceil>real_of_int k / 2\<rceil> / real_of_int k)
                         * real_of_int W)\<rceil>;
          perfect_1 = \<lceil>round_to_double
                        (round_to_double (real_of_int \<lfloor>real_of_int k / 2\<rfloor> / real_of_int k)
                         * real_of_int W)\<rceil>
      in epsilon' = (if W = 0 then Finite 0 else std_min (Finite c) (std_max x (Finite 0))) \<and>
         epsilon' = Finite e \<and> 0 \<le> e \<and> e \<le> 99 / 100 \<and>
         (\<forall>v. W \<noteq> 0 \<and> x = Finite v \<longrightarrow> e = clamp v 0 c) \<and>
         partition_perfect_balance_part_weights b_context = [perfect_0, perfect_1] \<and>
         \<bar>perfect_0 - \<lceil>real_of_int \<lceil>real_of_int k / 2\<rceil> / real_of_int k * real_of_int W\<rceil>\<bar> \<le> 1 \<and>
         \<bar>perfect_1 - \<lceil>real_of_int \<lfloor>real_of_int k / 2\<rfloor> / real_of_int k * real_of_int W\<rceil>\<bar> \<le> 1 \<and>
         partition_max_part_weights b_context =
           [\<lfloor>round_to_double (round_to_double (1 + e) * real_of_int perfect_0)\<rfloor>,
            \<lfloor>round_to_double (round_to_double (1 + e) * real_of_int perfect_1)\<rfloor>])"
proof -
  define W where "W = totalWeight hypergraph"
  define k where "k = partition_k context"
  define E where "E = computeAdaptiveEpsilon libm info W k"
  define base where "base = double_mul
                   (double_div
                      (std_ceil (double_div (int_to_double (original_hypergraph_weight info))
                                            (int_to_double (original_k info))))
                      (Finite (of_int \<lceil>round_to_double (real_of_int W / real_of_int k)\<rceil>)))
                   (double_add (Finite 1) (original_epsilon info))"
  define x where "x = double_sub
                (std_pow libm base
                   (double_div (Finite 1) (std_ceil (std_log2 libm (Finite (of_int k))))))
                (Finite 1)"
  define p0 where "p0 = \<lceil>round_to_double
                        (round_to_double (real_of_int \<lceil>real_of_int k / 2\<rceil> / real_of_int k)
                         * real_of_int W)\<rceil>"
  define p1 where "p1 = \<lceil>round_to_double
                        (round_to_double (real_of_int \<lfloor>real_of_int k / 2\<rfloor> / real_of_int k)
                         * real_of_int W)\<rceil>"
  have k: "2 \<le> k" "k < 2 ^ 31" "0 < k" "0 \<le> k" using assms(2,3) by (simp_all add: k_def)
  have W: "0 \<le> W" "W < 2 ^ 30" "W < 2 ^ 31" using assms(4,5) by (simp_all add: W_def)
  have keep: "\<And>w c. partition_epsilon (setupDerivedParameters w c) = partition_epsilon c"
    "\<And>w c. partition_perfect_balance_part_weights (setupDerivedParameters w c) =
        partition_perfect_balance_part_weights c"
    "\<And>w c. partition_max_part_weights (setupDerivedParameters w c) = partition_max_part_weights c"
    using assms(6) by (simp_all add: keeps_part_weights_def)
  note hb = half_bounds [OF k(1)]
  have iW: "int_to_double W = Finite (of_int W)" and ik: "int_to_double k = Finite (of_int k)"
    using k W by (simp_all add: int_to_double_Finite)
  have wk: "real_of_int W * 1 \<le> real_of_int W * real_of_int k"
    by (rule mult_left_mono) (use W k in simp_all)
  have Wk: "double_div (Finite (of_int W)) (Finite (of_int k)) =
              Finite (round_to_double (real_of_int W / real_of_int k))"
    by (rule double_div_nonneg [of _ _ W]) (use W k wk in \<open>simp_all add: field_simps\<close>)
  have cWk: "std_ceil (Finite (round_to_double (real_of_int W / real_of_int k))) =
               Finite (of_int \<lceil>round_to_double (real_of_int W / real_of_int k)\<rceil>)"
    by (rule std_ceil_nonneg, rule round_to_double_nonneg) (use W k in simp)
  have E: "E = (if W = 0 then Finite 0
                else std_min (Finite (round_to_double (99 / 100))) (std_max x (Finite 0)))"
    unfolding E_def computeAdaptiveEpsilon_def Let_def iW ik Wk cWk
    by (simp add: double_literal_0 double_literal_1 double_literal_99 x_def base_def)
  have Er: "E = Finite (value_of E) \<and> 0 \<le> value_of E \<and> value_of E \<le> 99 / 100 \<and>
            (\<forall>v. W \<noteq> 0 \<and> x = Finite v \<longrightarrow> value_of E = clamp v 0 (round_to_double (99 / 100)))"
  proof (cases "W = 0")
    case True
    then show ?thesis by (simp add: E)
  next
    case False
    have "E = std_min (double_literal (99 / 100))
                (std_max (double_sub (std_pow libm base
                   (double_div (Finite 1) (std_ceil (std_log2 libm (Finite (of_int k))))))
                   (double_literal 1)) (double_literal 0))"
      using False by (simp add: E double_literal_0 double_literal_1 double_literal_99 x_def)
    then show ?thesis
      using adaptive_epsilon_range(2-5) [of "std_pow libm base
                   (double_div (Finite 1) (std_ceil (std_log2 libm (Finite (of_int k)))))"]
      by (simp add: x_def)
  qed
  define e where "e = value_of E"
  have e: "E = Finite e" "0 \<le> e" "e \<le> 1" using Er by (simp_all add: e_def)
  note P0 = perfect_weight_value [OF hb(1,2) k(3,2) W(1,3), folded p0_def]
  note P1 = perfect_weight_value [OF hb(3,4) k(3,2) W(1,3), folded p1_def]
  have p30: "p0 < 2 ^ 30" "p1 < 2 ^ 30" using P0(3) P1(3) W(2) by linarith+
  note M0 = max_weight_value [OF e(2,3) P0(2) p30(1)]
  note M1 = max_weight_value [OF e(2,3) P1(2) p30(2)]
  have k1c: "cpp_div k 2 = \<lfloor>real_of_int k / 2\<rfloor>" by (rule floor_half [OF k(4)])
  have k0c: "\<lfloor>real_of_int k / 2\<rfloor> + (if cpp_mod k 2 \<noteq> 0 then 1 else 0) = \<lceil>real_of_int k / 2\<rceil>"
    using ceil_half [OF k(4)] by (simp only: k1c)
  have b: "partition_epsilon (setupBipartitioningContext libm setupDerivedParameters hypergraph context info) = E"
    "partition_perfect_balance_part_weights
       (setupBipartitioningContext libm setupDerivedParameters hypergraph context info) = [p0, p1]"
    "partition_max_part_weights
       (setupBipartitioningContext libm setupDerivedParameters hypergraph context info) =
       [\<lfloor>round_to_double (round_to_double (1 + e) * real_of_int p0)\<rfloor>,
        \<lfloor>round_to_double (round_to_double (1 + e) * real_of_int p1)\<rfloor>]"
    unfolding setupBipartitioningContext_def Let_def
    by (simp_all only: assms(1) if_False k_def [symmetric] W_def [symmetric] k1c k0c
          E_def [symmetric] P0(1) P1(1) e(1) M0 M1)
       (simp_all add: keep)
  show ?thesis
    unfolding Let_def W_def [symmetric] k_def [symmetric] base_def [symmetric] x_def [symmetric]
      p0_def [symmetric] p1_def [symmetric] b
    using E Er P0(4) P1(4) by (simp add: e_def)
qed

theorem setupBipartitioningContext_default_witness:
  "\<not> partition_use_individual_part_weights example_context \<and>
   2 \<le> partition_k example_context \<and> partition_k example_context < 2 ^ 31 \<and>
   0 \<le> totalWeight example_hypergraph \<and> totalWeight example_hypergraph < 2 ^ 30 \<and>
   keeps_part_weights (\<lambda>w c. c) \<and>
   partition_epsilon (setupBipartitioningContext correctly_rounded_libm (\<lambda>w c. c)
      example_hypergraph example_context example_info) = Finite (1 / 2) \<and>
   partition_perfect_balance_part_weights (setupBipartitioningContext correctly_rounded_libm (\<lambda>w c. c)
      example_hypergraph example_context example_info) = [1, 1] \<and>
   partition_max_part_weights (setupBipartitioningContext correctly_rounded_libm (\<lambda>w c. c)
      example_hypergraph example_context example_info) = [1, 1]"
proof -
  have h: "\<not> partition_use_individual_part_weights example_context"
    "2 \<le> partition_k example_context" "partition_k example_context < 2 ^ 31"
    "0 \<le> totalWeight example_hypergraph" "totalWeight example_hypergraph < 2 ^ 30"
    by (simp_all add: example_context_def example_hypergraph_def totalWeight_def)
  have k: "partition_k example_context = 2" by (simp add: example_context_def)
  have w: "totalWeight example_hypergraph = 2"
    by (simp add: example_hypergraph_def totalWeight_def)
  have i: "original_hypergraph_weight example_info = 2" "original_k example_info = 2"
    "original_epsilon example_info = Finite (1 / 2)"
    by (simp_all add: example_info_def)
  show ?thesis
    using setupBipartitioningContext_default [OF h keeps_part_weights_id,
        of correctly_rounded_libm example_info] h keeps_part_weights_id
    by (simp add: Let_def k w i double_eval log2_2 pow_1 round_to_double_3_2 round_to_double_1_2
        round_to_double_99)
qed

text \<open>
  The exact formulas of the claim fail in two ways. The max part weight is an integer:
  for two nodes of weight 1, \<open>k = 2\<close> and \<open>\<epsilon>\<^sub>0 = 1/2\<close> the adaptive epsilon is
  \<open>1/2\<close>, the perfect weights are 1 and the max part weights are 1, not \<open>3/2\<close>. The
  perfect weight is computed with two roundings: for \<open>W = 29\<close> and \<open>k = 29\<close> the
  quotient \<open>15 / 29\<close> is rounded up, its product with 29 is the double above 15, and the
  first perfect weight is 16, where \<open>\<lceil>\<lceil>k/2\<rceil> / k * W\<rceil>\<close> is 15.
\<close>

theorem setupBipartitioningContext_default_counterexample:
  "partition_epsilon (setupBipartitioningContext correctly_rounded_libm (\<lambda>w c. c)
      example_hypergraph example_context example_info) = Finite (1 / 2) \<and>
   partition_perfect_balance_part_weights (setupBipartitioningContext correctly_rounded_libm (\<lambda>w c. c)
      example_hypergraph example_context example_info) = [1, 1] \<and>
   partition_max_part_weights (setupBipartitioningContext correctly_rounded_libm (\<lambda>w c. c)
      example_hypergraph example_context example_info) = [1, 1] \<and>
   map real_of_int (partition_max_part_weights (setupBipartitioningContext correctly_rounded_libm
      (\<lambda>w c. c) example_hypergraph example_context example_info))
   \<noteq> map (\<lambda>p. (1 + value_of (partition_epsilon (setupBipartitioningContext
                    correctly_rounded_libm (\<lambda>w c. c) example_hypergraph example_context example_info)))
               * real_of_int p)
          (partition_perfect_balance_part_weights (setupBipartitioningContext correctly_rounded_libm
             (\<lambda>w c. c) example_hypergraph example_context example_info)) \<and>
   partition_perfect_balance_part_weights (setupBipartitioningContext correctly_rounded_libm (\<lambda>w c. c)
      example_hypergraph29 example_context29 example_info) = [16, 14] \<and>
   \<lceil>real_of_int \<lceil>real_of_int 29 / 2\<rceil> / real_of_int 29 * real_of_int 29\<rceil> = 15"
proof -
  have n: "\<not> partition_use_individual_part_weights example_context"
    "\<not> partition_use_individual_part_weights example_context29"
    by (simp_all add: example_context_def example_context29_def)
  have k: "partition_k example_context = 2" "partition_k example_context29 = 29"
    by (simp_all add: example_context_def example_context29_def)
  have w: "totalWeight example_hypergraph = 2" "totalWeight example_hypergraph29 = 29"
    by (simp_all add: example_hypergraph_def example_hypergraph29_def totalWeight_def)
  have c: "cpp_div 2 2 = 1" "cpp_mod 2 2 = 0" "cpp_div 29 2 = 14" "cpp_mod 29 2 = 1"
    by (simp_all add: cpp_div_def cpp_mod_def)
  note f = setupBipartitioningContext_default_fields [OF n(1) keeps_part_weights_id,
      of correctly_rounded_libm example_hypergraph example_info]
  note g = setupBipartitioningContext_default_fields(2) [OF n(2) keeps_part_weights_id,
      of correctly_rounded_libm example_hypergraph29 example_info]
  have "\<lceil>real_of_int \<lceil>real_of_int 29 / 2\<rceil> / real_of_int 29 * real_of_int 29\<rceil> = 15"
    by simp
  then show ?thesis
    unfolding f(3) unfolding f(1,2) g
    by (simp add: k w c example_epsilon example_perfect example_max example29_perfect)
qed

text \<open>
  C4 (as amended). With individual part weights, \<open>2 \<le> k < 2^31\<close>, a vector \<open>M\<close> (the
  parent's max part weights) of at least \<open>k\<close> non-negative entries with
  \<open>0 < \<Sum> M < 2^30\<close> and a total weight \<open>0 \<le> W \<le> \<Sum> M\<close> (the code asserts
  \<open>W / \<Sum> M \<le> 1\<close>), \<^verbatim>\<open>setupBipartitioningContext\<close> computes in binary64 arithmetic,
  every operation rounded to the nearest double: \<open>f = W / \<Sum> M\<close>; \<open>s\<^sub>0\<close> and \<open>s\<^sub>1\<close>,
  the sums of \<open>ceil(f * M[i])\<close> over \<open>i < \<lceil>k/2\<rceil>\<close> and over \<open>\<lceil>k/2\<rceil> \<le> i < k\<close>, every
  term within one of the exact \<open>\<lceil>W / \<Sum> M * M[i]\<rceil>\<close>; \<open>base = \<Sum> M / (s\<^sub>0 + s\<^sub>1)\<close>;
  epsilon as \<open>min(0.99, max(pow(base, 1 / ceil(log2(k))) - 1, 0))\<close>, and 0 when
  \<open>W = 0\<close>, a finite double between 0 and 0.99. It sets the perfect-balance part weights
  to \<open>(s\<^sub>0, s\<^sub>1)\<close> and the max part weights to \<open>(1 + epsilon) * s\<^sub>i\<close> as computed with
  two roundings, rounded half away from zero. \<^verbatim>\<open>pow\<close> and \<^verbatim>\<open>log2\<close> are those of an
  arbitrary mathematical library.
\<close>

theorem setupBipartitioningContext_individual:
  assumes "partition_use_individual_part_weights context"
    and "2 \<le> partition_k context" and "partition_k context < 2 ^ 31"
    and "partition_k context \<le> int (length (partition_max_part_weights context))"
    and "list_all (\<lambda>m. 0 \<le> m) (partition_max_part_weights context)"
    and "0 < sum_list (partition_max_part_weights context)"
    and "sum_list (partition_max_part_weights context) < 2 ^ 30"
    and "0 \<le> totalWeight hypergraph"
    and "totalWeight hypergraph \<le> sum_list (partition_max_part_weights context)"
    and "keeps_part_weights setupDerivedParameters"
  shows
    "(let W = totalWeight hypergraph;
          k = partition_k context;
          M = partition_max_part_weights context;
          b_context = setupBipartitioningContext libm setupDerivedParameters hypergraph context info;
          f = round_to_double (real_of_int W / real_of_int (sum_list M));
          t = (\<lambda>i. \<lceil>round_to_double (f * real_of_int (M ! i))\<rceil>);
          s0 = (\<Sum>i = 0..<nat \<lceil>real_of_int k / 2\<rceil>. t i);
          s1 = (\<Sum>i = nat \<lceil>real_of_int k / 2\<rceil>..<nat k. t i);
          base = double_div (Finite (of_int (sum_list M))) (Finite (of_int (s0 + s1)));
          x = double_sub
                (std_pow libm base
                   (double_div (Finite 1) (std_ceil (std_log2 libm (Finite (of_int k))))))
                (Finite 1);
          c = round_to_double (99 / 100);
          epsilon' = partition_epsilon b_context;
          e = value_of epsilon'
      in epsilon' = (if W = 0 then Finite 0 else std_min (Finite c) (std_max x (Finite 0))) \<and>
         epsilon' = Finite e \<and> 0 \<le> e \<and> e \<le> 99 / 100 \<and>
         (\<forall>v. W \<noteq> 0 \<and> x = Finite v \<longrightarrow> e = clamp v 0 c) \<and>
         partition_perfect_balance_part_weights b_context = [s0, s1] \<and>
         (\<forall>i<nat k. \<bar>t i - \<lceil>real_of_int W / real_of_int (sum_list M) * real_of_int (M ! i)\<rceil>\<bar> \<le> 1) \<and>
         partition_max_part_weights b_context =
           [round_half_away_from_zero (round_to_double (round_to_double (1 + e) * real_of_int s0)),
            round_half_away_from_zero (round_to_double (round_to_double (1 + e) * real_of_int s1))])"
proof -
  define W where "W = totalWeight hypergraph"
  define k where "k = partition_k context"
  define M where "M = partition_max_part_weights context"
  define S where "S = sum_list M"
  define q where "q = real_of_int W / real_of_int S"
  define t where "t = (\<lambda>i. \<lceil>round_to_double (round_to_double q * real_of_int (M ! i))\<rceil>)"
  define s0 where "s0 = (\<Sum>i = 0..<nat \<lceil>real_of_int k / 2\<rceil>. t i)"
  define s1 where "s1 = (\<Sum>i = nat \<lceil>real_of_int k / 2\<rceil>..<nat k. t i)"
  define base where "base = double_div (Finite (of_int S)) (Finite (of_int (s0 + s1)))"
  define x where "x = double_sub
                (std_pow libm base
                   (double_div (Finite 1) (std_ceil (std_log2 libm (Finite (of_int k))))))
                (Finite 1)"
  define E where "E = (if W = 0 then Finite 0
                       else std_min (Finite (round_to_double (99 / 100))) (std_max x (Finite 0)))"
  have k: "2 \<le> k" "0 \<le> k" "k \<le> int (length M)" "k < 2 ^ 31"
    using assms(2,3,4) by (simp_all add: k_def M_def)
  have Mnn: "\<forall>m\<in>set M. 0 \<le> m" using assms(5) by (simp add: M_def list_all_iff)
  have S: "0 < S" "S < 2 ^ 30" "S < 2 ^ 31" using assms(6,7) by (simp_all add: S_def M_def)
  have W: "0 \<le> W" "W \<le> S" using assms(8,9) by (simp_all add: W_def S_def M_def)
  have keep: "\<And>w c. partition_epsilon (setupDerivedParameters w c) = partition_epsilon c"
    "\<And>w c. partition_perfect_balance_part_weights (setupDerivedParameters w c) =
        partition_perfect_balance_part_weights c"
    "\<And>w c. partition_max_part_weights (setupDerivedParameters w c) = partition_max_part_weights c"
    using assms(10) by (simp_all add: keeps_part_weights_def)
  note hb = half_bounds [OF k(1)]
  have acc: "accumulate M = S" unfolding S_def by (rule accumulate_eq [OF Mnn S(3) [unfolded S_def]])
  have iW: "int_to_double W = Finite (of_int W)" and iS: "int_to_double S = Finite (of_int S)"
    and ik: "int_to_double k = Finite (of_int k)" and i0: "int_to_double 0 = Finite 0"
    using W S k by (simp_all add: int_to_double_Finite)
  have q: "0 \<le> q" "q \<le> 1" using W S(1) by (simp_all add: q_def)
  have f: "double_div (Finite (of_int W)) (Finite (of_int S)) = Finite (round_to_double q)"
    unfolding q_def by (rule double_div_nonneg [of _ _ 1]) (use W S(1) q [unfolded q_def] in simp_all)
  have k1c: "cpp_div k 2 = \<lfloor>real_of_int k / 2\<rfloor>" by (rule floor_half [OF k(2)])
  have k0c: "\<lfloor>real_of_int k / 2\<rfloor> + (if cpp_mod k 2 \<noteq> 0 then 1 else 0) = \<lceil>real_of_int k / 2\<rceil>"
    using ceil_half [OF k(2)] by (simp only: k1c)
  have e0: "sum_ceil_weights (Finite (round_to_double q)) M 0 \<lceil>real_of_int k / 2\<rceil> = s0"
    using sum_ceil_weights_eq [OF q Mnn S(3) [unfolded S_def], of 0 "\<lceil>real_of_int k / 2\<rceil>"]
      hb(1,2) k(3) by (simp add: s0_def t_def)
  have e1: "sum_ceil_weights (Finite (round_to_double q)) M \<lceil>real_of_int k / 2\<rceil> k = s1"
    using sum_ceil_weights_eq [OF q Mnn S(3) [unfolded S_def], of "\<lceil>real_of_int k / 2\<rceil>" k]
      hb(1,2) k(3) by (simp add: s1_def t_def)
  have tb: "0 \<le> t i" "t i \<le> M ! i"
       "\<bar>t i - \<lceil>q * real_of_int (M ! i)\<rceil>\<bar> \<le> 1" if "i < length M" for i
  proof -
    have "0 \<le> M ! i" using Mnn that by simp
    moreover have "M ! i < 2 ^ 31"
      using nth_le_sum_list [OF Mnn that] S(3) by (simp add: S_def)
    ultimately show "0 \<le> t i" "t i \<le> M ! i" "\<bar>t i - \<lceil>q * real_of_int (M ! i)\<rceil>\<bar> \<le> 1"
      unfolding t_def using scaled_ceiling(2,3,4) [OF q, of "M ! i"] by simp_all
  qed
  have nk: "nat \<lceil>real_of_int k / 2\<rceil> \<le> nat k" "nat k \<le> length M" using hb(2) k(2,3) by simp_all
  have in0: "i < length M" if "i \<in> {0..<nat \<lceil>real_of_int k / 2\<rceil>}" for i
  proof -
    from that have "i < nat \<lceil>real_of_int k / 2\<rceil>" by (simp only: atLeastLessThan_iff)
    with nk show ?thesis by linarith
  qed
  have in1: "i < length M" if "i \<in> {nat \<lceil>real_of_int k / 2\<rceil>..<nat k}" for i
  proof -
    from that have "i < nat k" by (simp only: atLeastLessThan_iff)
    with nk show ?thesis by linarith
  qed
  have ink: "i < length M" if "i \<in> {0..<nat k}" for i
  proof -
    from that have "i < nat k" by (simp only: atLeastLessThan_iff)
    with nk show ?thesis by linarith
  qed
  have s0nn: "0 \<le> s0" unfolding s0_def by (rule sum_nonneg, rule tb(1), rule in0)
  have s1nn: "0 \<le> s1" unfolding s1_def by (rule sum_nonneg, rule tb(1), rule in1)
  have "s0 + s1 = (\<Sum>i = 0..<nat k. t i)"
    unfolding s0_def s1_def by (rule sum.atLeastLessThan_concat) (use nk in linarith)+
  also have "\<dots> \<le> (\<Sum>i = 0..<nat k. M ! i)" by (rule sum_mono, rule tb(2), rule ink)
  also have "\<dots> \<le> sum_list M" by (rule sum_nth_le_sum_list [OF Mnn nk(2)])
  finally have sS: "s0 + s1 \<le> S" by (simp add: S_def)
  have s30: "s0 < 2 ^ 30" "s1 < 2 ^ 30" using sS s0nn s1nn S(2) by linarith+
  have wrap: "int32_t (s0 + s1) = s0 + s1"
    by (rule int32_t_id') (use sS s0nn s1nn S(3) in linarith)+
  have iss: "int_to_double (s0 + s1) = Finite (of_int (s0 + s1))"
    by (rule int_to_double_Finite) (use sS s0nn s1nn S(2) in simp)
  have Eeq: "(if W = 0 then Finite 0
              else std_min (double_literal (99 / 100))
                     (std_max
                        (double_sub
                           (std_pow libm (double_div (Finite (of_int S)) (Finite (of_int (s0 + s1))))
                              (double_div (double_literal 1)
                                 (std_ceil (std_log2 libm (Finite (of_int k))))))
                           (double_literal 1))
                        (double_literal 0))) = E"
    by (simp add: E_def x_def base_def double_literal_0 double_literal_1 double_literal_99)
  have Er: "E = Finite (value_of E) \<and> 0 \<le> value_of E \<and> value_of E \<le> 99 / 100 \<and>
            (\<forall>v. W \<noteq> 0 \<and> x = Finite v \<longrightarrow> value_of E = clamp v 0 (round_to_double (99 / 100)))"
  proof (cases "W = 0")
    case True
    then show ?thesis by (simp add: E_def)
  next
    case False
    have "E = std_min (double_literal (99 / 100))
                (std_max (double_sub (std_pow libm base
                   (double_div (Finite 1) (std_ceil (std_log2 libm (Finite (of_int k))))))
                   (double_literal 1)) (double_literal 0))"
      using False by (simp add: E_def double_literal_0 double_literal_1 double_literal_99 x_def)
    then show ?thesis
      using adaptive_epsilon_range(2-5) [of "std_pow libm base
                   (double_div (Finite 1) (std_ceil (std_log2 libm (Finite (of_int k)))))"]
      by (simp add: x_def)
  qed
  define e where "e = value_of E"
  have e: "E = Finite e" "0 \<le> e" "e \<le> 1" using Er by (simp_all add: e_def)
  note M0 = rounded_weight_value [OF e(2,3) s0nn s30(1)]
  note M1 = rounded_weight_value [OF e(2,3) s1nn s30(2)]
  have b: "partition_epsilon (setupBipartitioningContext libm setupDerivedParameters hypergraph context info) = E"
    "partition_perfect_balance_part_weights
       (setupBipartitioningContext libm setupDerivedParameters hypergraph context info) = [s0, s1]"
    "partition_max_part_weights
       (setupBipartitioningContext libm setupDerivedParameters hypergraph context info) =
       [round_half_away_from_zero (round_to_double (round_to_double (1 + e) * real_of_int s0)),
        round_half_away_from_zero (round_to_double (round_to_double (1 + e) * real_of_int s1))]"
    unfolding setupBipartitioningContext_def Let_def
    by (simp_all only: assms(1) if_True k_def [symmetric] W_def [symmetric] M_def [symmetric]
          acc iW iS ik i0 f k1c k0c e0 e1 wrap iss Eeq e(1) M0 M1)
       (simp_all add: keep)
  have encl: "\<forall>i<nat k. \<bar>t i - \<lceil>q * real_of_int (M ! i)\<rceil>\<bar> \<le> 1"
  proof (intro allI impI)
    fix i assume "i < nat k"
    with nk(2) have "i < length M" by linarith
    then show "\<bar>t i - \<lceil>q * real_of_int (M ! i)\<rceil>\<bar> \<le> 1" by (rule tb(3))
  qed
  show ?thesis
    unfolding Let_def W_def [symmetric] k_def [symmetric] M_def [symmetric] S_def [symmetric]
      q_def [symmetric] t_def [symmetric] s0_def [symmetric] s1_def [symmetric]
      base_def [symmetric] x_def [symmetric] b
    using Er encl by (simp add: e_def E_def t_def)
qed

theorem setupBipartitioningContext_individual_witness:
  "partition_use_individual_part_weights example_individual_context \<and>
   2 \<le> partition_k example_individual_context \<and>
   partition_k example_individual_context < 2 ^ 31 \<and>
   partition_k example_individual_context
     \<le> int (length (partition_max_part_weights example_individual_context)) \<and>
   list_all (\<lambda>m. 0 \<le> m) (partition_max_part_weights example_individual_context) \<and>
   0 < sum_list (partition_max_part_weights example_individual_context) \<and>
   sum_list (partition_max_part_weights example_individual_context) < 2 ^ 30 \<and>
   0 \<le> totalWeight example_individual_hypergraph \<and>
   totalWeight example_individual_hypergraph
     \<le> sum_list (partition_max_part_weights example_individual_context) \<and>
   keeps_part_weights (\<lambda>w c. c) \<and>
   partition_epsilon (setupBipartitioningContext correctly_rounded_libm (\<lambda>w c. c)
      example_individual_hypergraph example_individual_context example_info) =
     Finite (1351079888211149 / 2251799813685248) \<and>
   partition_perfect_balance_part_weights (setupBipartitioningContext correctly_rounded_libm (\<lambda>w c. c)
      example_individual_hypergraph example_individual_context example_info) = [2, 3] \<and>
   partition_max_part_weights (setupBipartitioningContext correctly_rounded_libm (\<lambda>w c. c)
      example_individual_hypergraph example_individual_context example_info) = [3, 5]"
proof -
  have m: "partition_max_part_weights example_individual_context = [3, 5]"
    and k: "partition_k example_individual_context = 2"
    by (simp_all add: example_individual_context_def example_context_def)
  have w: "totalWeight example_individual_hypergraph = 4"
    by (simp add: example_individual_hypergraph_def totalWeight_def)
  have h: "partition_use_individual_part_weights example_individual_context"
    "2 \<le> partition_k example_individual_context"
    "partition_k example_individual_context < 2 ^ 31"
    "partition_k example_individual_context
       \<le> int (length (partition_max_part_weights example_individual_context))"
    "list_all (\<lambda>m. 0 \<le> m) (partition_max_part_weights example_individual_context)"
    "0 < sum_list (partition_max_part_weights example_individual_context)"
    "sum_list (partition_max_part_weights example_individual_context) < 2 ^ 30"
    "0 \<le> totalWeight example_individual_hypergraph"
    "totalWeight example_individual_hypergraph
       \<le> sum_list (partition_max_part_weights example_individual_context)"
    unfolding m k w by (simp_all add: example_individual_context_def)
  show ?thesis
    using setupBipartitioningContext_individual [OF h keeps_part_weights_id,
        of correctly_rounded_libm example_info] h keeps_part_weights_id
    by (simp add: Let_def m k w double_eval log2_2 pow_1 round_to_double_3_2 round_to_double_1_2
        round_to_double_5_2 round_to_double_8_5 round_to_double_99)
qed

text \<open>
  The exact sums of the claim fail: for \<open>W = 14\<close>, \<open>k = 2\<close> and \<open>M = (25, 25)\<close> the
  quotient \<open>14 / 50\<close> is rounded up, its product with 25 is the double above 7, and both
  perfect weights are 8, where \<open>\<lceil>W / \<Sum> M * M[i]\<rceil>\<close> is 7.
\<close>

theorem setupBipartitioningContext_individual_counterexample:
  "partition_perfect_balance_part_weights (setupBipartitioningContext correctly_rounded_libm (\<lambda>w c. c)
      example_hypergraph14 example_individual_context25 example_info) = [8, 8] \<and>
   (let W = 14; M = [25, 25 :: int]; f = real_of_int W / real_of_int (sum_list M)
    in [\<Sum>i = 0..<1. \<lceil>f * real_of_int (M ! i)\<rceil>, \<Sum>i = 1..<2. \<lceil>f * real_of_int (M ! i)\<rceil>]) = [7, 7]"
proof -
  have m: "partition_max_part_weights example_individual_context25 = [25, 25]"
    and k: "partition_k example_individual_context25 = 2"
    and i: "partition_use_individual_part_weights example_individual_context25"
    by (simp_all add: example_individual_context25_def example_individual_context_def
        example_context_def)
  have w: "totalWeight example_hypergraph14 = 14"
    by (simp add: example_hypergraph14_def totalWeight_def)
  have c: "cpp_div 2 2 = 1" "cpp_mod 2 2 = 0"
    by (simp_all add: cpp_div_def cpp_mod_def)
  have a: "accumulate [25, 25] = 50" by (simp add: accumulate_def int32_t_def)
  have u: "[0..0] = [0::int]" "[1..1] = [1::int]" by (simp_all add: upto.simps)
  have p: "partition_perfect_balance_part_weights (setupBipartitioningContext correctly_rounded_libm
      (\<lambda>w c. c) example_hypergraph14 example_individual_context25 example_info) = [8, 8]"
    unfolding setupBipartitioningContext_individual_fields [OF i keeps_part_weights_id]
    by (simp add: Let_def m k w c a u sum_ceil_weights_def vec_at_def double_eval
        round_to_double_7_25)
  show ?thesis unfolding p by (simp add: Let_def)
qed

subsection \<open>The driver: the two loops and the partitioned hypergraph\<close>

lemma fold_pointwise_update:
  assumes "n \<le> length xs"
  shows "fold (\<lambda>v ys. ys[v := h v (ys ! v)]) [0..<n] xs = map (\<lambda>v. h v (xs ! v)) [0..<n] @ drop n xs"
  using assms
proof (induction n)
  case 0
  then show ?case by simp
next
  case (Suc n)
  then have n: "n < length xs" by simp
  have d: "drop n xs = xs ! n # drop (Suc n) xs" using n by (simp add: Cons_nth_drop_Suc)
  have l: "length (map (\<lambda>v. h v (xs ! v)) [0..<n]) = n" by simp
  have "fold (\<lambda>v ys. ys[v := h v (ys ! v)]) [0..<Suc n] xs =
        (map (\<lambda>v. h v (xs ! v)) [0..<n] @ drop n xs)[n := h n ((map (\<lambda>v. h v (xs ! v)) [0..<n] @ drop n xs) ! n)]"
    using Suc.IH n by simp
  also have "\<dots> = map (\<lambda>v. h v (xs ! v)) [0..<n] @ (h n (xs ! n) # drop (Suc n) xs)"
    unfolding d using l by (simp add: list_update_append nth_append)
  finally show ?case by simp
qed

lemma fold_pointwise_update_all:
  assumes "length xs = n"
  shows "fold (\<lambda>v ys. ys[v := h v (ys ! v)]) [0..<n] xs = map (\<lambda>v. h v (xs ! v)) [0..<n]"
  using fold_pointwise_update [of n xs h] assms by simp

lemma assign_bisection_step:
  "assign_bisection bip b0 b1 v (phg, evs) =
     (phg\<lparr>phg_part_ids := (phg_part_ids phg)[v := (if bip v = 0 then b0 else b1)]\<rparr>,
      evs @ [SetOnlyNodePart v (if bip v = 0 then b0 else b1)])"
  by (simp add: assign_bisection_def setOnlyNodePart_def Let_def)

lemma assign_bisection_fold:
  "fold (assign_bisection bip b0 b1) vs (phg, evs) =
     (phg\<lparr>phg_part_ids := fold (\<lambda>v ys. ys[v := (if bip v = 0 then b0 else b1)]) vs (phg_part_ids phg)\<rparr>,
      evs @ map (\<lambda>v. SetOnlyNodePart v (if bip v = 0 then b0 else b1)) vs)"
proof (induction vs arbitrary: phg evs)
  case Nil
  then show ?case by simp
next
  case (Cons v vs)
  show ?case
    by (simp only: fold_simps assign_bisection_step Cons.IH) simp
qed

lemma assign_bisection_all:
  assumes "wf_phg phg"
  shows "doParallelForAllNodes (assign_bisection bip b0 b1) (phg, evs) =
     (phg\<lparr>phg_part_ids := map (\<lambda>v. if bip v = 0 then b0 else b1) [0..<initialNumNodes (phg_hypergraph phg)]\<rparr>,
      evs @ map (\<lambda>v. SetOnlyNodePart v (if bip v = 0 then b0 else b1)) [0..<initialNumNodes (phg_hypergraph phg)])"
proof -
  have "length (phg_part_ids phg) = initialNumNodes (phg_hypergraph phg)"
    using assms by (simp add: wf_phg_def)
  then show ?thesis
    using fold_pointwise_update_all [of "phg_part_ids phg" "initialNumNodes (phg_hypergraph phg)"
        "\<lambda>v x. if bip v = 0 then b0 else b1"]
    by (simp add: doParallelForAllNodes_def assign_bisection_fold)
qed

lemma apply_block_partition_hypergraph:
  "phg_hypergraph (fst (apply_block_partition R m b hn s)) = phg_hypergraph (fst s)"
  by (simp add: apply_block_partition_def changeNodePart_def Let_def)

lemma apply_block_partition_part_ids:
  "phg_part_ids (fst (apply_block_partition R m b hn s)) =
     (phg_part_ids (fst s))[hn := (if phg_part_ids (fst s) ! hn = b then b + partID R (m ! hn)
                                   else phg_part_ids (fst s) ! hn)]"
proof (cases "hn < length (phg_part_ids (fst s))")
  case True
  then show ?thesis
    by (auto simp add: apply_block_partition_def changeNodePart_def Let_def partID_def
        list_update_id [symmetric])
next
  case False
  then have "\<And>x. (phg_part_ids (fst s))[hn := x] = phg_part_ids (fst s)"
    by (simp add: list_update_beyond)
  with False show ?thesis
    by (simp add: apply_block_partition_def changeNodePart_def Let_def partID_def)
qed

lemma apply_block_partition_events:
  "hn < length (phg_part_ids (fst s)) \<Longrightarrow>
   snd (apply_block_partition R m b hn s) =
     snd s @ (if phg_part_ids (fst s) ! hn = b \<and> b + partID R (m ! hn) \<noteq> b
              then [ChangeNodePart hn b (b + partID R (m ! hn))] else [])"
  by (simp add: apply_block_partition_def changeNodePart_def Let_def partID_def)

lemma apply_fold_hypergraph:
  "phg_hypergraph (fst (fold (apply_block_partition R m b) vs s)) = phg_hypergraph (fst s)"
  by (induction vs arbitrary: s) (simp_all add: apply_block_partition_hypergraph)

lemma apply_fold_part_ids:
  "phg_part_ids (fst (fold (apply_block_partition R m b) vs s)) =
     fold (\<lambda>v ys. ys[v := (if ys ! v = b then b + partID R (m ! v) else ys ! v)]) vs
       (phg_part_ids (fst s))"
  by (induction vs arbitrary: s) (simp_all add: apply_block_partition_part_ids)

lemma apply_fold_upt:
  assumes "n \<le> length (phg_part_ids (fst s))"
  shows "snd (fold (apply_block_partition R m b) [0..<n] s) =
           snd s @ map (\<lambda>v. ChangeNodePart v b (b + partID R (m ! v)))
                     (filter (\<lambda>v. phg_part_ids (fst s) ! v = b \<and> b + partID R (m ! v) \<noteq> b) [0..<n])"
  using assms
proof (induction n)
  case 0
  then show ?case by simp
next
  case (Suc n)
  let ?t = "fold (apply_block_partition R m b) [0..<n] s"
  let ?xs = "phg_part_ids (fst s)"
  have n: "n < length ?xs" using Suc.prems by simp
  have p: "phg_part_ids (fst ?t) =
      map (\<lambda>v. if ?xs ! v = b then b + partID R (m ! v) else ?xs ! v) [0..<n] @ drop n ?xs"
    unfolding apply_fold_part_ids
    using fold_pointwise_update [of n ?xs "\<lambda>v x. if x = b then b + partID R (m ! v) else x"] n
    by simp
  have at: "phg_part_ids (fst ?t) ! n = ?xs ! n"
    unfolding p using n by (simp add: nth_append)
  have len: "n < length (phg_part_ids (fst ?t))" unfolding p using n by simp
  have "snd (fold (apply_block_partition R m b) [0..<Suc n] s) =
        snd (apply_block_partition R m b n ?t)" by simp
  also have "\<dots> = snd ?t @ (if ?xs ! n = b \<and> b + partID R (m ! n) \<noteq> b
              then [ChangeNodePart n b (b + partID R (m ! n))] else [])"
    using apply_block_partition_events [OF len, of R m b] at by simp
  finally show ?case using Suc.IH n by simp
qed

lemma apply_block_partition_all:
  assumes "wf_phg phg"
  shows "phg_part_ids (fst (doParallelForAllNodes (apply_block_partition R m b) (phg, evs))) =
           map (\<lambda>v. if phg_part_ids phg ! v = b then b + partID R (m ! v) else phg_part_ids phg ! v)
             [0..<length (phg_part_ids phg)]"
    and "snd (doParallelForAllNodes (apply_block_partition R m b) (phg, evs)) =
           evs @ map (\<lambda>v. ChangeNodePart v b (b + partID R (m ! v)))
                   (filter (\<lambda>v. phg_part_ids phg ! v = b \<and> b + partID R (m ! v) \<noteq> b)
                      [0..<length (phg_part_ids phg)])"
    and "phg_hypergraph (fst (doParallelForAllNodes (apply_block_partition R m b) (phg, evs))) =
           phg_hypergraph phg"
proof -
  have l: "initialNumNodes (phg_hypergraph phg) = length (phg_part_ids phg)"
    using assms by (simp add: wf_phg_def)
  show "phg_part_ids (fst (doParallelForAllNodes (apply_block_partition R m b) (phg, evs))) =
           map (\<lambda>v. if phg_part_ids phg ! v = b then b + partID R (m ! v) else phg_part_ids phg ! v)
             [0..<length (phg_part_ids phg)]"
    using fold_pointwise_update_all [of "phg_part_ids phg" "length (phg_part_ids phg)"
        "\<lambda>v x. if x = b then b + partID R (m ! v) else x"]
    by (simp add: doParallelForAllNodes_def l apply_fold_part_ids)
  show "snd (doParallelForAllNodes (apply_block_partition R m b) (phg, evs)) =
           evs @ map (\<lambda>v. ChangeNodePart v b (b + partID R (m ! v)))
                   (filter (\<lambda>v. phg_part_ids phg ! v = b \<and> b + partID R (m ! v) \<noteq> b)
                      [0..<length (phg_part_ids phg)])"
    using apply_fold_upt [of "length (phg_part_ids phg)" "(phg, evs)" R m b]
    by (simp add: doParallelForAllNodes_def l)
  show "phg_hypergraph (fst (doParallelForAllNodes (apply_block_partition R m b) (phg, evs))) =
           phg_hypergraph phg"
    by (simp add: doParallelForAllNodes_def apply_fold_hypergraph)
qed

lemma ceiling_half_cond: "(2 \<le> cpp_div k 2 + cpp_mod k 2) = (2 \<le> \<lceil>real_of_int k / 2\<rceil>)"
proof (cases "0 \<le> k")
  case True
  then show ?thesis by (simp add: ceil_half')
next
  case False
  then have k: "k < 0" by simp
  then have "\<not> 2 \<le> cpp_div k 2 + cpp_mod k 2" using rb_k0_less [of k] by auto
  moreover have "\<not> 2 \<le> \<lceil>real_of_int k / 2\<rceil>"
    unfolding ceiling_half_int using k by presburger
  ultimately show ?thesis by simp
qed

lemma floor_half_cond: "(2 \<le> cpp_div k 2) = (2 \<le> \<lfloor>real_of_int k / 2\<rfloor>)"
proof (cases "0 \<le> k")
  case True
  then show ?thesis by (simp add: floor_half)
next
  case False
  then have k: "k < 0" by simp
  then have "\<not> 2 \<le> cpp_div k 2" using rb_k1_less [of k] by auto
  moreover have "\<lfloor>real_of_int k / 2\<rfloor> = k div 2"
    using floor_divide_of_int_eq [of k 2, where ?'a = real] by simp
  then have "\<not> 2 \<le> \<lfloor>real_of_int k / 2\<rfloor>" using k by presburger
  ultimately show ?thesis by simp
qed

lemma ceiling_half_val:
  "2 \<le> \<lceil>real_of_int k / 2\<rceil> \<Longrightarrow> cpp_div k 2 + cpp_mod k 2 = \<lceil>real_of_int k / 2\<rceil>
     \<and> cpp_div k 2 = \<lfloor>real_of_int k / 2\<rfloor>"
proof -
  assume a: "2 \<le> \<lceil>real_of_int k / 2\<rceil>"
  then have "2 \<le> cpp_div k 2 + cpp_mod k 2" by (simp add: ceiling_half_cond)
  then have "0 \<le> k" using rb_k0_less [of k] by simp
  then show ?thesis using ceil_half' [of k] floor_half [of k] by simp
qed

lemma initializePartition_part_ids [simp]:
  "phg_part_ids (initializePartition p) = phg_part_ids p"
  by (simp add: initializePartition_def Let_def)

lemma initializePartition_hypergraph [simp]:
  "phg_hypergraph (initializePartition p) = phg_hypergraph p"
  by (simp add: initializePartition_def Let_def)

lemma wf_new_PartitionedHypergraph: "wf_phg (new_PartitionedHypergraph k hg)"
  by (simp add: wf_phg_def new_PartitionedHypergraph_def)

lemma new_PartitionedHypergraph_hypergraph [simp]:
  "phg_hypergraph (new_PartitionedHypergraph k hg) = hg"
  by (simp add: new_PartitionedHypergraph_def)

lemma extract_num_nodes:
  "initialNumNodes (fst (phg_extract b c st phg)) =
     length (filter (\<lambda>v. phg_part_ids phg ! v = b) [0..<length (phg_part_ids phg)])"
  by (simp add: phg_extract_def Let_def initialNumNodes_def nodes_of_block_def)

lemma filter_upt_prefix_less:
  assumes "v < n" "P v"
  shows "length (filter P [0..<v]) < length (filter P [0..<n])"
proof -
  have "[0..<n] = [0..<v] @ v # [Suc v..<n]"
    using assms(1) by (metis upt_conv_Cons upt_add_eq_append le0 le_add_diff_inverse less_imp_le_nat add_0)
  then show ?thesis using assms(2) by simp
qed

lemma extract_mapping_in_range:
  assumes "v < length (phg_part_ids phg)" "phg_part_ids phg ! v = b"
  shows "snd (phg_extract b c st phg) ! v < initialNumNodes (fst (phg_extract b c st phg))"
proof -
  have "snd (phg_extract b c st phg) ! v = length (filter (\<lambda>u. phg_part_ids phg ! u = b) [0..<v])"
    using assms by (simp add: phg_extract_def Let_def)
  then show ?thesis
    unfolding extract_num_nodes
    using filter_upt_prefix_less [of v "length (phg_part_ids phg)" "\<lambda>u. phg_part_ids phg ! u = b"] assms
    by simp
qed


subsection \<open>The driver: one round of each function\<close>

lemma no_initialize_in_assignments:
  "filter (\<lambda>e. e = InitializePartition) (map (\<lambda>v. SetOnlyNodePart v (t v)) vs) = []"
  by (induction vs) simp_all

lemma recursive_bipartitioning_unfold:
  assumes "wf_phg phg" and "k0 \<le> k1"
  shows
    "(let hg = phg_hypergraph phg;
          b_context = setupBipartitioningContext lm sd hg ctx info;
          bisection = mp hg b_context;
          block_1 = \<lceil>real_of_int (k1 - k0) / 2\<rceil>;
          target = (\<lambda>v. if bisection v = 0 then 0 else block_1);
          nodes = [0..<initialNumNodes hg];
          phg1 = initializePartition (phg\<lparr>phg_part_ids := map target nodes\<rparr>);
          evs1 = Bisect hg b_context # map (\<lambda>v. SetOnlyNodePart v (target v)) nodes
                 @ [InitializePartition];
          rb_k0 = \<lceil>real_of_int (partition_k ctx) / 2\<rceil>;
          rb_k1 = \<lfloor>real_of_int (partition_k ctx) / 2\<rfloor>;
          result = recursive_bipartitioning lm mp sd phg ctx k0 k1 info
      in (if 2 \<le> rb_k0 \<and> 2 \<le> rb_k1 then
            let r0 = recursively_bipartition_block lm mp sd phg1 ctx 0 0 rb_k0 info (1 / 2);
                r1 = recursively_bipartition_block lm mp sd (fst r0) ctx block_1 rb_k0 (rb_k0 + rb_k1)
                       info (1 / 2)
            in result =
                 (fst r1,
                  evs1 @ [TaskGroup [[RecursivelyBipartitionBlock 0 0 rb_k0 (1 / 2) (snd r0)],
                                     [RecursivelyBipartitionBlock block_1 rb_k0 (rb_k0 + rb_k1)
                                        (1 / 2) (snd r1)]]])
          else if 2 \<le> rb_k0 then
            let r0 = recursively_bipartition_block lm mp sd phg1 ctx 0 0 rb_k0 info 1
            in result = (fst r0, evs1 @ [RecursivelyBipartitionBlock 0 0 rb_k0 1 (snd r0)])
          else result = (phg1, evs1)))"
proof -
  have b1: "cpp_div (k1 - k0) 2 + cpp_mod (k1 - k0) 2 = \<lceil>real_of_int (k1 - k0) / 2\<rceil>"
    using assms(2) by (simp add: ceil_half')
  show ?thesis
  proof (cases "2 \<le> \<lceil>real_of_int (partition_k ctx) / 2\<rceil>")
    case True
    have c1: "cpp_div (partition_k ctx) 2 = \<lfloor>real_of_int (partition_k ctx) / 2\<rfloor>"
      and c0: "\<lfloor>real_of_int (partition_k ctx) / 2\<rfloor> + cpp_mod (partition_k ctx) 2
                 = \<lceil>real_of_int (partition_k ctx) / 2\<rceil>"
      using ceiling_half_val [OF True] by simp_all
    show ?thesis
      apply (simp only: Let_def recursive_bipartitioning.simps [of lm mp sd phg ctx k0 k1 info]
          assign_bisection_all [OF assms(1)] b1 c1 c0 fst_conv snd_conv)
      apply (simp del: of_int_diff)
      done
  next
    case False
    then have c: "(2 \<le> cpp_div (partition_k ctx) 2 + cpp_mod (partition_k ctx) 2) = False"
      by (simp add: ceiling_half_cond)
    show ?thesis
      apply (simp only: Let_def recursive_bipartitioning.simps [of lm mp sd phg ctx k0 k1 info]
          assign_bisection_all [OF assms(1)] b1 c fst_conv snd_conv)
      using False apply (simp del: of_int_diff)
      done
  qed
qed



lemma recursively_bipartition_block_unfold:
  assumes "wf_phg phg"
  shows
    "(let rb_context = setupRecursiveBipartitioningContext ctx k0 k1 dop;
          cut_net_splitting = (partition_objective ctx = Objective_km1);
          stable = preprocessing_stable_construction_of_incident_edges ctx;
          rb_hg = fst (phg_extract block cut_net_splitting stable phg);
          mapping = snd (phg_extract block cut_net_splitting stable phg);
          result = recursively_bipartition_block lm mp sd phg ctx block k0 k1 info dop
      in if 0 < initialNumNodes rb_hg then
           let sub = recursive_bipartitioning lm mp sd (new_PartitionedHypergraph (k1 - k0) rb_hg)
                       rb_context k0 k1 info;
               target = (\<lambda>v. block + partID (fst sub) (mapping ! v));
               nodes = [0..<initialNumNodes (phg_hypergraph phg)]
           in snd result =
                [Extract block cut_net_splitting stable,
                 RecursiveBipartitioning (k1 - k0) rb_hg rb_context k0 k1 (snd sub)]
                @ map (\<lambda>v. ChangeNodePart v block (target v))
                    (filter (\<lambda>v. partID phg v = block \<and> target v \<noteq> block) nodes) \<and>
              phg_part_ids (fst result) =
                map (\<lambda>v. if partID phg v = block then target v else partID phg v) nodes \<and>
              phg_hypergraph (fst result) = phg_hypergraph phg
         else result = (phg, [Extract block cut_net_splitting stable]))"
proof -
  have l: "initialNumNodes (phg_hypergraph phg) = length (phg_part_ids phg)"
    using assms by (simp add: wf_phg_def)
  show ?thesis
    by (simp add: Let_def recursively_bipartition_block.simps [of lm mp sd phg ctx block k0 k1 info dop]
        apply_block_partition_all [OF assms] setupRecursiveBipartitioningContext_k l partID_def)
qed



subsection \<open>The driver: blocks stay non-negative\<close>

text \<open>The frame property of a block call, given that the partition of the sub-hypergraph
  has no negative block.\<close>

lemma block_frame_from_sub:
  assumes wf: "wf_phg phg"
    and sub: "0 < initialNumNodes (fst (phg_extract block (partition_objective ctx = Objective_km1)
                    (preprocessing_stable_construction_of_incident_edges ctx) phg)) \<Longrightarrow>
              wf_phg (fst (recursive_bipartitioning lm mp sd
                (new_PartitionedHypergraph (k1 - k0)
                   (fst (phg_extract block (partition_objective ctx = Objective_km1)
                    (preprocessing_stable_construction_of_incident_edges ctx) phg)))
                (setupRecursiveBipartitioningContext ctx k0 k1 dop) k0 k1 info)) \<and>
              phg_hypergraph (fst (recursive_bipartitioning lm mp sd
                (new_PartitionedHypergraph (k1 - k0)
                   (fst (phg_extract block (partition_objective ctx = Objective_km1)
                    (preprocessing_stable_construction_of_incident_edges ctx) phg)))
                (setupRecursiveBipartitioningContext ctx k0 k1 dop) k0 k1 info)) =
                 fst (phg_extract block (partition_objective ctx = Objective_km1)
                    (preprocessing_stable_construction_of_incident_edges ctx) phg) \<and>
              (\<forall>x\<in>set (phg_part_ids (fst (recursive_bipartitioning lm mp sd
                (new_PartitionedHypergraph (k1 - k0)
                   (fst (phg_extract block (partition_objective ctx = Objective_km1)
                    (preprocessing_stable_construction_of_incident_edges ctx) phg)))
                (setupRecursiveBipartitioningContext ctx k0 k1 dop) k0 k1 info))). 0 \<le> x)"
  shows "wf_phg (fst (recursively_bipartition_block lm mp sd phg ctx block k0 k1 info dop)) \<and>
         phg_hypergraph (fst (recursively_bipartition_block lm mp sd phg ctx block k0 k1 info dop)) =
           phg_hypergraph phg \<and>
         (\<forall>v<length (phg_part_ids phg).
            if phg_part_ids phg ! v = block
            then block \<le> phg_part_ids (fst (recursively_bipartition_block lm mp sd phg ctx block k0 k1 info dop)) ! v
            else phg_part_ids (fst (recursively_bipartition_block lm mp sd phg ctx block k0 k1 info dop)) ! v
                 = phg_part_ids phg ! v)"
proof -
  define ex where "ex = phg_extract block (partition_objective ctx = Objective_km1)
                    (preprocessing_stable_construction_of_incident_edges ctx) phg"
  define S where "S = fst (recursive_bipartitioning lm mp sd
                (new_PartitionedHypergraph (k1 - k0) (fst ex))
                (setupRecursiveBipartitioningContext ctx k0 k1 dop) k0 k1 info)"
  define R where "R = recursively_bipartition_block lm mp sd phg ctx block k0 k1 info dop"
  have l: "initialNumNodes (phg_hypergraph phg) = length (phg_part_ids phg)"
    using wf by (simp add: wf_phg_def)
  note st = recursively_bipartition_block_unfold [OF wf, of ctx k0 k1 dop block lm mp sd info,
      unfolded Let_def, folded ex_def, folded S_def R_def]
  show ?thesis
  proof (cases "0 < initialNumNodes (fst ex)")
    case False
    with st have "R = (phg, [Extract block (partition_objective ctx = Objective_km1)
                    (preprocessing_stable_construction_of_incident_edges ctx)])" by simp
    then show ?thesis using wf unfolding R_def [symmetric] by simp
  next
    case True
    with st have p: "phg_part_ids (fst R) =
        map (\<lambda>v. if partID phg v = block then block + partID S (snd ex ! v) else partID phg v)
          [0..<initialNumNodes (phg_hypergraph phg)]"
      and h: "phg_hypergraph (fst R) = phg_hypergraph phg"
      by simp_all
    from sub True have sw: "wf_phg S" and sh: "phg_hypergraph S = fst ex"
      and sn: "\<forall>x\<in>set (phg_part_ids S). 0 \<le> x"
      unfolding ex_def [symmetric] S_def [symmetric] by simp_all
    have len: "length (phg_part_ids S) = initialNumNodes (fst ex)"
      using sw sh by (simp add: wf_phg_def)
    have nonneg: "0 \<le> partID S (snd ex ! v)"
      if "v < length (phg_part_ids phg)" "phg_part_ids phg ! v = block" for v
    proof -
      have "snd ex ! v < length (phg_part_ids S)"
        unfolding len ex_def using extract_mapping_in_range [OF that] by simp
      then have "phg_part_ids S ! (snd ex ! v) \<in> set (phg_part_ids S)" by (rule nth_mem)
      with sn show ?thesis by (simp add: partID_def)
    qed
    have "wf_phg (fst R)" using p h l by (simp add: wf_phg_def)
    moreover have "\<forall>v<length (phg_part_ids phg).
            if phg_part_ids phg ! v = block
            then block \<le> phg_part_ids (fst R) ! v
            else phg_part_ids (fst R) ! v = phg_part_ids phg ! v"
      using nonneg unfolding p l by (simp add: partID_def)
    ultimately show ?thesis using h unfolding R_def [symmetric] by simp
  qed
qed

lemma ceiling_half_less: "2 \<le> \<lceil>real_of_int k / 2\<rceil> \<Longrightarrow> nat \<lceil>real_of_int k / 2\<rceil> < nat k"
proof -
  assume "2 \<le> \<lceil>real_of_int k / 2\<rceil>"
  then have "2 \<le> - (- k div 2)" by (simp only: ceiling_half_int)
  then have "- (- k div 2) < k \<and> 0 < k" by presburger
  then show ?thesis by (simp only: ceiling_half_int) arith
qed

lemma floor_half_int: "\<lfloor>real_of_int k / 2\<rfloor> = k div 2"
  using floor_divide_of_int_eq [of k 2, where ?'a = real] by simp

lemma floor_half_less: "2 \<le> \<lfloor>real_of_int k / 2\<rfloor> \<Longrightarrow> nat \<lfloor>real_of_int k / 2\<rfloor> < nat k"
proof -
  assume "2 \<le> \<lfloor>real_of_int k / 2\<rfloor>"
  then have "2 \<le> k div 2" by (simp only: floor_half_int)
  then have "k div 2 < k \<and> 0 < k" by presburger
  then show ?thesis by (simp only: floor_half_int) arith
qed

lemma frame_nonneg:
  assumes "wf_phg p" "wf_phg r" "phg_hypergraph r = phg_hypergraph p"
    and "\<forall>x\<in>set (phg_part_ids p). 0 \<le> x" "0 \<le> b"
    and "\<forall>v<length (phg_part_ids p).
            if phg_part_ids p ! v = b then b \<le> phg_part_ids r ! v
            else phg_part_ids r ! v = phg_part_ids p ! v"
  shows "\<forall>x\<in>set (phg_part_ids r). 0 \<le> x"
proof -
  have len: "length (phg_part_ids r) = length (phg_part_ids p)"
    using assms(1-3) by (simp add: wf_phg_def)
  have "0 \<le> phg_part_ids r ! v" if "v < length (phg_part_ids r)" for v
  proof (cases "phg_part_ids p ! v = b")
    case True
    with assms(6) that len have "b \<le> phg_part_ids r ! v" by auto
    with assms(5) show ?thesis by simp
  next
    case False
    with assms(6) that len have "phg_part_ids r ! v = phg_part_ids p ! v" by auto
    moreover have "phg_part_ids p ! v \<in> set (phg_part_ids p)" using that len by simp
    ultimately show ?thesis using assms(4) by simp
  qed
  then show ?thesis by (simp add: all_set_conv_all_nth)
qed

lemma recursive_bipartitioning_nonneg:
  assumes "wf_phg phg" "k0 \<le> k1"
  shows "wf_phg (fst (recursive_bipartitioning lm mp sd phg ctx k0 k1 info)) \<and>
         phg_hypergraph (fst (recursive_bipartitioning lm mp sd phg ctx k0 k1 info)) = phg_hypergraph phg \<and>
         (\<forall>x\<in>set (phg_part_ids (fst (recursive_bipartitioning lm mp sd phg ctx k0 k1 info))). 0 \<le> x)"
  using assms
proof (induction "nat (partition_k ctx)" arbitrary: phg ctx k0 k1 rule: less_induct)
  case less
  note wf = less.prems(1) and le = less.prems(2)
  define hg where "hg = phg_hypergraph phg"
  define B1 where "B1 = \<lceil>real_of_int (k1 - k0) / 2\<rceil>"
  define target where
    "target = (\<lambda>v. if mp hg (setupBipartitioningContext lm sd hg ctx info) v = 0 then 0 else B1)"
  define phg1 where
    "phg1 = initializePartition (phg\<lparr>phg_part_ids := map target [0..<initialNumNodes hg]\<rparr>)"
  define K0 where "K0 = \<lceil>real_of_int (partition_k ctx) / 2\<rceil>"
  define K1 where "K1 = \<lfloor>real_of_int (partition_k ctx) / 2\<rfloor>"
  define R where "R = recursive_bipartitioning lm mp sd phg ctx k0 k1 info"
  have B1: "0 \<le> B1" using le unfolding B1_def ceiling_half_int by presburger
  have wf1: "wf_phg phg1" and hg1: "phg_hypergraph phg1 = phg_hypergraph phg"
    and nn1: "\<forall>x\<in>set (phg_part_ids phg1). 0 \<le> x"
    using B1 by (auto simp add: phg1_def wf_phg_def hg_def target_def)
  have Q: "wf_phg (fst (recursively_bipartition_block lm mp sd p ctx b a c info d)) \<and>
         phg_hypergraph (fst (recursively_bipartition_block lm mp sd p ctx b a c info d)) =
           phg_hypergraph p \<and>
         (\<forall>v<length (phg_part_ids p).
            if phg_part_ids p ! v = b
            then b \<le> phg_part_ids (fst (recursively_bipartition_block lm mp sd p ctx b a c info d)) ! v
            else phg_part_ids (fst (recursively_bipartition_block lm mp sd p ctx b a c info d)) ! v
                 = phg_part_ids p ! v)"
    if "wf_phg p" "a \<le> c" "nat (c - a) < nat (partition_k ctx)" for p b a c d
  proof (rule block_frame_from_sub [OF that(1)])
    have m: "nat (partition_k (setupRecursiveBipartitioningContext ctx a c d)) < nat (partition_k ctx)"
      using that(3) by (simp add: setupRecursiveBipartitioningContext_k)
    show "wf_phg (fst (recursive_bipartitioning lm mp sd
                (new_PartitionedHypergraph (c - a)
                   (fst (phg_extract b (partition_objective ctx = Objective_km1)
                    (preprocessing_stable_construction_of_incident_edges ctx) p)))
                (setupRecursiveBipartitioningContext ctx a c d) a c info)) \<and>
              phg_hypergraph (fst (recursive_bipartitioning lm mp sd
                (new_PartitionedHypergraph (c - a)
                   (fst (phg_extract b (partition_objective ctx = Objective_km1)
                    (preprocessing_stable_construction_of_incident_edges ctx) p)))
                (setupRecursiveBipartitioningContext ctx a c d) a c info)) =
                 fst (phg_extract b (partition_objective ctx = Objective_km1)
                    (preprocessing_stable_construction_of_incident_edges ctx) p) \<and>
              (\<forall>x\<in>set (phg_part_ids (fst (recursive_bipartitioning lm mp sd
                (new_PartitionedHypergraph (c - a)
                   (fst (phg_extract b (partition_objective ctx = Objective_km1)
                    (preprocessing_stable_construction_of_incident_edges ctx) p)))
                (setupRecursiveBipartitioningContext ctx a c d) a c info))). 0 \<le> x)"
      using less.hyps [OF m wf_new_PartitionedHypergraph that(2)] by simp
  qed
  note st = recursive_bipartitioning_unfold [OF wf le, of lm sd ctx info mp, unfolded Let_def,
      folded hg_def, folded B1_def, folded target_def, folded phg1_def K0_def K1_def R_def]
  show ?case
  proof (cases "2 \<le> K0")
    case False
    with st have "fst R = phg1" by simp
    then show ?thesis using wf1 hg1 nn1 unfolding R_def [symmetric] by simp
  next
    case True
    then have m0: "nat (K0 - 0) < nat (partition_k ctx)"
      unfolding K0_def using ceiling_half_less by simp
    define r0 where "r0 = (\<lambda>d. recursively_bipartition_block lm mp sd phg1 ctx 0 0 K0 info d)"
    have q0: "wf_phg (fst (r0 d)) \<and> phg_hypergraph (fst (r0 d)) = phg_hypergraph phg1 \<and>
         (\<forall>v<length (phg_part_ids phg1).
            if phg_part_ids phg1 ! v = 0 then 0 \<le> phg_part_ids (fst (r0 d)) ! v
            else phg_part_ids (fst (r0 d)) ! v = phg_part_ids phg1 ! v)" for d
      unfolding r0_def using Q [OF wf1 _ m0] True by simp
    have nn0: "\<forall>x\<in>set (phg_part_ids (fst (r0 d))). 0 \<le> x" for d
      using frame_nonneg [OF wf1 _ _ nn1 _, of "fst (r0 d)" 0] q0 [of d] by simp
    show ?thesis
    proof (cases "2 \<le> K1")
      case False
      with True st have "fst R = fst (r0 1)" by (simp add: r0_def)
      then show ?thesis using q0 [of 1] nn0 [of 1] hg1 unfolding R_def [symmetric] by simp
    next
      case K1: True
      then have m1: "nat (K0 + K1 - K0) < nat (partition_k ctx)"
        unfolding K1_def using floor_half_less by simp
      have le1: "K0 \<le> K0 + K1" using K1 by simp
      define r1 where "r1 = recursively_bipartition_block lm mp sd (fst (r0 (1 / 2))) ctx B1 K0 (K0 + K1) info (1 / 2)"
      have w0: "wf_phg (fst (r0 (1 / 2)))" using q0 by simp
      note q1 = Q [OF w0 le1 m1, of B1 "1 / 2", folded r1_def]
      have nn: "\<forall>x\<in>set (phg_part_ids (fst r1)). 0 \<le> x"
        using frame_nonneg [OF w0 _ _ nn0 B1, of "fst r1"] q1 by simp
      from True K1 st have "fst R = fst r1" by (simp add: r0_def r1_def)
      then show ?thesis using q1 nn q0 [of "1 / 2"] hg1 unfolding R_def [symmetric] by simp
    qed
  qed
qed

subsection \<open>The driver on the example\<close>

lemma upt_0_2: "[0..<2] = [0, Suc 0]"
  by (simp add: upt_rec)

lemma example_num_nodes: "initialNumNodes example_hypergraph = 2"
  by (simp add: initialNumNodes_def example_hypergraph_def)

lemma wf_example_phg: "wf_phg example_phg"
  by (simp add: wf_phg_def example_phg_def example_num_nodes)

lemma example_phg_fields:
  "phg_part_ids example_phg = [0, 0]" "phg_hypergraph example_phg = example_hypergraph"
  by (simp_all add: example_phg_def)

lemma example_context4_fields:
  "partition_k example_context4 = 4" "partition_objective example_context4 = Objective_km1"
  "preprocessing_stable_construction_of_incident_edges example_context4 = False"
  by (simp_all add: example_context4_def example_context_def)

lemma example_extract_0: "phg_extract 0 True False example_phg = (example_hypergraph, [0, 1])"
  by (simp add: phg_extract_def Let_def example_phg_fields nodes_of_block_def upt_0_2
      example_hypergraph_def)

lemma example_extract_2:
  "initialNumNodes (fst (phg_extract 2 True False example_phg)) = 0"
  by (simp add: extract_num_nodes example_phg_fields upt_0_2)

text \<open>The bisection of the two-node sub-hypergraph into blocks 0 and 1.\<close>

lemma example_sub:
  "recursive_bipartitioning correctly_rounded_libm example_bisector (\<lambda>w c. c)
     (new_PartitionedHypergraph 2 example_hypergraph)
     (setupRecursiveBipartitioningContext example_context4 0 2 (1 / 2)) 0 2 example_info =
   (initializePartition ((new_PartitionedHypergraph 2 example_hypergraph)\<lparr>phg_part_ids := [0, 1]\<rparr>),
    [Bisect example_hypergraph
       (setupBipartitioningContext correctly_rounded_libm (\<lambda>w c. c) example_hypergraph
          (setupRecursiveBipartitioningContext example_context4 0 2 (1 / 2)) example_info),
     SetOnlyNodePart 0 0, SetOnlyNodePart 1 1, InitializePartition])"
  using recursive_bipartitioning_unfold [OF wf_new_PartitionedHypergraph, of 0 2 2 example_hypergraph
      correctly_rounded_libm "\<lambda>w c. c" "setupRecursiveBipartitioningContext example_context4 0 2 (1 / 2)" example_info
      example_bisector]
  by (simp add: Let_def setupRecursiveBipartitioningContext_k example_num_nodes upt_0_2
      example_bisector_def)


lemma example_block_0_parts:
  "phg_part_ids (fst (recursively_bipartition_block correctly_rounded_libm example_bisector (\<lambda>w c. c) example_phg
          example_context4 0 0 2 example_info (1 / 2))) = [0, 1]"
  using recursively_bipartition_block_unfold [OF wf_example_phg, of example_context4 0 2 "1 / 2" 0
      correctly_rounded_libm example_bisector "\<lambda>w c. c" example_info]
  by (simp add: Let_def example_context4_fields example_extract_0 example_num_nodes example_sub
      example_phg_fields upt_0_2 partID_def)

subsection \<open>recursive_bipartitioning\<close>

text \<open>
  C2. For a block range \<open>k0 \<le> k1\<close> with \<open>k = k1 - k0\<close>, \<^verbatim>\<open>recursive_bipartitioning\<close>
  calls the external bisection once, then \<^verbatim>\<open>setOnlyNodePart\<close> for every node, with
  block 0 when the node's bisection part is 0 and with block \<open>\<lceil>k/2\<rceil>\<close> otherwise, then
  \<^verbatim>\<open>initializePartition\<close>, exactly once. With \<open>rb_k0 = \<lceil>ctx.k/2\<rceil>\<close> and
  \<open>rb_k1 = \<lfloor>ctx.k/2\<rfloor>\<close> it then runs a task group of two block recursions, block 0
  over \<open>(0, rb_k0)\<close> and block \<open>\<lceil>k/2\<rceil>\<close> over \<open>(rb_k0, rb_k0 + rb_k1)\<close>, each with
  parallelism factor \<open>1/2\<close>, when both are at least 2; only the recursion on block 0
  with factor 1 when only \<open>rb_k0\<close> is at least 2; and nothing more otherwise.
\<close>

theorem recursive_bipartitioning_structure:
  assumes "wf_phg phg" and "k0 \<le> k1"
  shows
    "(let hg = phg_hypergraph phg;
          b_context = setupBipartitioningContext lm sd hg ctx info;
          bisection = mp hg b_context;
          block_1 = \<lceil>real_of_int (k1 - k0) / 2\<rceil>;
          target = (\<lambda>v. if bisection v = 0 then 0 else block_1);
          nodes = [0..<initialNumNodes hg];
          phg1 = initializePartition (phg\<lparr>phg_part_ids := map target nodes\<rparr>);
          evs1 = Bisect hg b_context # map (\<lambda>v. SetOnlyNodePart v (target v)) nodes
                 @ [InitializePartition];
          rb_k0 = \<lceil>real_of_int (partition_k ctx) / 2\<rceil>;
          rb_k1 = \<lfloor>real_of_int (partition_k ctx) / 2\<rfloor>;
          result = recursive_bipartitioning lm mp sd phg ctx k0 k1 info
      in length (filter (\<lambda>e. e = InitializePartition) (snd result)) = 1 \<and>
         (if 2 \<le> rb_k0 \<and> 2 \<le> rb_k1 then
            let r0 = recursively_bipartition_block lm mp sd phg1 ctx 0 0 rb_k0 info (1 / 2);
                r1 = recursively_bipartition_block lm mp sd (fst r0) ctx block_1 rb_k0 (rb_k0 + rb_k1)
                       info (1 / 2)
            in result =
                 (fst r1,
                  evs1 @ [TaskGroup [[RecursivelyBipartitionBlock 0 0 rb_k0 (1 / 2) (snd r0)],
                                     [RecursivelyBipartitionBlock block_1 rb_k0 (rb_k0 + rb_k1)
                                        (1 / 2) (snd r1)]]])
          else if 2 \<le> rb_k0 then
            let r0 = recursively_bipartition_block lm mp sd phg1 ctx 0 0 rb_k0 info 1
            in result = (fst r0, evs1 @ [RecursivelyBipartitionBlock 0 0 rb_k0 1 (snd r0)])
          else result = (phg1, evs1)))"
proof -
  note u = recursive_bipartitioning_unfold [OF assms, of lm sd ctx info mp, unfolded Let_def]
  have "length (filter (\<lambda>e. e = InitializePartition)
          (snd (recursive_bipartitioning lm mp sd phg ctx k0 k1 info))) = 1"
  proof (cases "2 \<le> \<lceil>real_of_int (partition_k ctx) / 2\<rceil>")
    case False
    with u show ?thesis by (simp add: no_initialize_in_assignments)
  next
    case True
    show ?thesis
    proof (cases "2 \<le> \<lfloor>real_of_int (partition_k ctx) / 2\<rfloor>")
      case False
      with True u show ?thesis by (simp add: no_initialize_in_assignments)
    next
      case K1: True
      with True u show ?thesis by (simp add: no_initialize_in_assignments)
    qed
  qed
  with u show ?thesis by (simp only: Let_def)
qed

theorem recursive_bipartitioning_structure_witness:
  "wf_phg (new_PartitionedHypergraph 4 example_hypergraph) \<and> (0::int) \<le> 4 \<and>
   (let phg1 = initializePartition
                 ((new_PartitionedHypergraph 4 example_hypergraph)\<lparr>phg_part_ids := [0, 2]\<rparr>);
        b_context = setupBipartitioningContext correctly_rounded_libm (\<lambda>w c. c) example_hypergraph example_context4 example_info;
        r0 = recursively_bipartition_block correctly_rounded_libm example_bisector (\<lambda>w c. c) phg1 example_context4
               0 0 2 example_info (1 / 2);
        r1 = recursively_bipartition_block correctly_rounded_libm example_bisector (\<lambda>w c. c) (fst r0) example_context4
               2 2 4 example_info (1 / 2)
    in recursive_bipartitioning correctly_rounded_libm example_bisector (\<lambda>w c. c)
         (new_PartitionedHypergraph 4 example_hypergraph) example_context4 0 4 example_info =
       (fst r1,
        [Bisect example_hypergraph b_context, SetOnlyNodePart 0 0, SetOnlyNodePart 1 2,
         InitializePartition,
         TaskGroup [[RecursivelyBipartitionBlock 0 0 2 (1 / 2) (snd r0)],
                    [RecursivelyBipartitionBlock 2 2 4 (1 / 2) (snd r1)]]]))"
proof -
  have h: "wf_phg (new_PartitionedHypergraph 4 example_hypergraph)" "(0::int) \<le> 4"
    by (simp_all add: wf_new_PartitionedHypergraph)
  show ?thesis
    using recursive_bipartitioning_structure [OF h, of correctly_rounded_libm "\<lambda>w c. c" example_context4 example_info
        example_bisector] h
    by (simp add: Let_def example_context4_fields example_num_nodes upt_0_2 example_bisector_def)
qed


subsection \<open>recursively_bipartition_block\<close>

text \<open>
  C3 (as amended). \<^verbatim>\<open>recursively_bipartition_block\<close> extracts the sub-hypergraph of
  its block with cut-net splitting exactly when the objective is km1. When the
  sub-hypergraph has at least one node, it recurses on a fresh partitioned hypergraph
  with \<open>k1 - k0\<close> blocks and then calls
  \<^verbatim>\<open>changeNodePart(v, block, block + rb_phg.partID(mapping[v]))\<close> for exactly the nodes
  \<open>v\<close> whose block is \<open>block\<close> and whose target differs from \<open>block\<close>; every
  node of the block ends in its target block. When the sub-hypergraph has no node, it
  does nothing after the extraction.
\<close>

theorem recursively_bipartition_block_structure:
  assumes "wf_phg phg"
  shows
    "(let rb_context = setupRecursiveBipartitioningContext ctx k0 k1 dop;
          cut_net_splitting = (partition_objective ctx = Objective_km1);
          stable = preprocessing_stable_construction_of_incident_edges ctx;
          rb_hg = fst (phg_extract block cut_net_splitting stable phg);
          mapping = snd (phg_extract block cut_net_splitting stable phg);
          result = recursively_bipartition_block lm mp sd phg ctx block k0 k1 info dop
      in phg_k (new_PartitionedHypergraph (partition_k rb_context) rb_hg) = k1 - k0 \<and>
         (if 0 < initialNumNodes rb_hg then
           let sub = recursive_bipartitioning lm mp sd (new_PartitionedHypergraph (k1 - k0) rb_hg)
                       rb_context k0 k1 info;
               target = (\<lambda>v. block + partID (fst sub) (mapping ! v));
               nodes = [0..<initialNumNodes (phg_hypergraph phg)]
           in snd result =
                [Extract block cut_net_splitting stable,
                 RecursiveBipartitioning (k1 - k0) rb_hg rb_context k0 k1 (snd sub)]
                @ map (\<lambda>v. ChangeNodePart v block (target v))
                    (filter (\<lambda>v. partID phg v = block \<and> target v \<noteq> block) nodes) \<and>
              phg_part_ids (fst result) =
                map (\<lambda>v. if partID phg v = block then target v else partID phg v) nodes \<and>
              phg_hypergraph (fst result) = phg_hypergraph phg
          else result = (phg, [Extract block cut_net_splitting stable])))"
proof -
  note u = recursively_bipartition_block_unfold [OF assms, of ctx k0 k1 dop block lm mp sd info,
      unfolded Let_def]
  have "phg_k (new_PartitionedHypergraph (partition_k (setupRecursiveBipartitioningContext ctx k0 k1 dop)) h)
          = k1 - k0" for h
    by (simp add: new_PartitionedHypergraph_def setupRecursiveBipartitioningContext_k)
  with u show ?thesis by (simp only: Let_def)
qed

theorem recursively_bipartition_block_structure_witness:
  "wf_phg example_phg \<and>
   snd (recursively_bipartition_block correctly_rounded_libm example_bisector (\<lambda>w c. c) example_phg example_context4
          0 0 2 example_info (1 / 2)) =
     [Extract 0 True False,
      RecursiveBipartitioning 2 example_hypergraph
        (setupRecursiveBipartitioningContext example_context4 0 2 (1 / 2)) 0 2
        [Bisect example_hypergraph
           (setupBipartitioningContext correctly_rounded_libm (\<lambda>w c. c) example_hypergraph
              (setupRecursiveBipartitioningContext example_context4 0 2 (1 / 2)) example_info),
         SetOnlyNodePart 0 0, SetOnlyNodePart 1 1, InitializePartition],
      ChangeNodePart 1 0 1] \<and>
   phg_part_ids (fst (recursively_bipartition_block correctly_rounded_libm example_bisector (\<lambda>w c. c) example_phg
          example_context4 0 0 2 example_info (1 / 2))) = [0, 1]"
  using recursively_bipartition_block_structure [OF wf_example_phg, of example_context4 0 2 "1 / 2" 0
      correctly_rounded_libm example_bisector "\<lambda>w c. c" example_info] wf_example_phg
  by (simp add: Let_def example_context4_fields example_extract_0 example_num_nodes example_sub
      example_phg_fields upt_0_2 partID_def)


text \<open>
  On a block without nodes the function does not recurse: the trace is the extraction
  alone.
\<close>

theorem recursively_bipartition_block_structure_counterexample:
  "recursively_bipartition_block correctly_rounded_libm example_bisector (\<lambda>w c. c) example_phg example_context4
     2 2 4 example_info (1 / 2) = (example_phg, [Extract 2 True False]) \<and>
   \<not> (\<exists>k hg c a b evs. RecursiveBipartitioning k hg c a b evs \<in>
        set (snd (recursively_bipartition_block correctly_rounded_libm example_bisector (\<lambda>w c. c) example_phg
                    example_context4 2 2 4 example_info (1 / 2))))"
proof -
  have "recursively_bipartition_block correctly_rounded_libm example_bisector (\<lambda>w c. c) example_phg example_context4
     2 2 4 example_info (1 / 2) = (example_phg, [Extract 2 True False])"
    by (simp add: recursively_bipartition_block.simps
          [of correctly_rounded_libm example_bisector "\<lambda>w c. c" example_phg example_context4 2 2 4 example_info "1 / 2"]
        Let_def example_context4_fields example_extract_2)
  then show ?thesis by simp
qed


text \<open>
  C10. For \<open>k0 \<le> k1\<close>, \<^verbatim>\<open>recursively_bipartition_block\<close> leaves the block of every
  node outside \<open>block\<close> as it was, moves nodes of \<open>block\<close> only to blocks at
  least \<open>block\<close>, and every \<^verbatim>\<open>changeNodePart\<close> it calls moves a node of \<open>block\<close>
  from \<open>block\<close> to a larger block. When the extracted sub-hypergraph has no node,
  the only call is the extraction: no bisection, no recursion, and the partitioned
  hypergraph is returned unchanged.
\<close>

theorem recursively_bipartition_block_frame:
  assumes "wf_phg phg" and "k0 \<le> k1"
  shows
    "(let result = recursively_bipartition_block lm mp sd phg ctx block k0 k1 info dop;
          part = phg_part_ids phg;
          part' = phg_part_ids (fst result);
          cut_net_splitting = (partition_objective ctx = Objective_km1);
          stable = preprocessing_stable_construction_of_incident_edges ctx;
          rb_hg = fst (phg_extract block cut_net_splitting stable phg)
      in length part' = length part \<and>
         phg_hypergraph (fst result) = phg_hypergraph phg \<and>
         (\<forall>v<length part. part ! v \<noteq> block \<longrightarrow> part' ! v = part ! v) \<and>
         (\<forall>v<length part. part ! v = block \<longrightarrow> block \<le> part' ! v) \<and>
         (\<forall>v from to. ChangeNodePart v from to \<in> set (snd result) \<longrightarrow>
            v < length part \<and> part ! v = block \<and> from = block \<and> block < to) \<and>
         (initialNumNodes rb_hg = 0 \<longrightarrow>
            result = (phg, [Extract block cut_net_splitting stable])))"
proof -
  define ex where "ex = phg_extract block (partition_objective ctx = Objective_km1)
                    (preprocessing_stable_construction_of_incident_edges ctx) phg"
  define S where "S = recursive_bipartitioning lm mp sd
                (new_PartitionedHypergraph (k1 - k0) (fst ex))
                (setupRecursiveBipartitioningContext ctx k0 k1 dop) k0 k1 info"
  define R where "R = recursively_bipartition_block lm mp sd phg ctx block k0 k1 info dop"
  have l: "initialNumNodes (phg_hypergraph phg) = length (phg_part_ids phg)"
    using assms(1) by (simp add: wf_phg_def)
  have sub: "wf_phg (fst S) \<and> phg_hypergraph (fst S) = fst ex \<and>
             (\<forall>x\<in>set (phg_part_ids (fst S)). 0 \<le> x)"
    unfolding S_def
    using recursive_bipartitioning_nonneg [OF wf_new_PartitionedHypergraph assms(2),
        of lm mp sd "k1 - k0" "fst ex" "setupRecursiveBipartitioningContext ctx k0 k1 dop" info]
    by simp
  have frame: "wf_phg (fst R) \<and> phg_hypergraph (fst R) = phg_hypergraph phg \<and>
         (\<forall>v<length (phg_part_ids phg).
            if phg_part_ids phg ! v = block then block \<le> phg_part_ids (fst R) ! v
            else phg_part_ids (fst R) ! v = phg_part_ids phg ! v)"
    unfolding R_def
    by (rule block_frame_from_sub [OF assms(1)]) (use sub in \<open>simp add: S_def ex_def\<close>)
  then have len: "length (phg_part_ids (fst R)) = length (phg_part_ids phg)"
    using assms(1) by (simp add: wf_phg_def)
  note st = recursively_bipartition_block_unfold [OF assms(1), of ctx k0 k1 dop block lm mp sd info,
      unfolded Let_def, folded ex_def, folded S_def R_def]
  have empty: "R = (phg, [Extract block (partition_objective ctx = Objective_km1)
                    (preprocessing_stable_construction_of_incident_edges ctx)])"
    if "initialNumNodes (fst ex) = 0"
    using st that by simp
  have moves: "v < length (phg_part_ids phg) \<and> phg_part_ids phg ! v = block \<and> f = block \<and> block < t"
    if m: "ChangeNodePart v f t \<in> set (snd R)" for v f t
  proof (cases "0 < initialNumNodes (fst ex)")
    case False
    with empty m show ?thesis by simp
  next
    case True
    with st have "snd R =
         [Extract block (partition_objective ctx = Objective_km1)
            (preprocessing_stable_construction_of_incident_edges ctx),
          RecursiveBipartitioning (k1 - k0) (fst ex)
            (setupRecursiveBipartitioningContext ctx k0 k1 dop) k0 k1 (snd S)]
         @ map (\<lambda>v. ChangeNodePart v block (block + partID (fst S) (snd ex ! v)))
             (filter (\<lambda>v. partID phg v = block \<and> block + partID (fst S) (snd ex ! v) \<noteq> block)
                [0..<initialNumNodes (phg_hypergraph phg)])"
      by simp
    with m have v: "v < length (phg_part_ids phg)" "partID phg v = block" "f = block"
      "t = block + partID (fst S) (snd ex ! v)" "t \<noteq> block"
      by (auto simp add: l)
    have "snd ex ! v < initialNumNodes (fst ex)"
      unfolding ex_def using extract_mapping_in_range [of v phg block] v(1,2)
      by (simp add: partID_def)
    then have "snd ex ! v < length (phg_part_ids (fst S))"
      using sub by (simp add: wf_phg_def)
    then have "phg_part_ids (fst S) ! (snd ex ! v) \<in> set (phg_part_ids (fst S))" by (rule nth_mem)
    with sub have "0 \<le> partID (fst S) (snd ex ! v)" by (simp add: partID_def)
    with v show ?thesis by (simp add: partID_def)
  qed
  show ?thesis
    unfolding Let_def ex_def [symmetric] R_def [symmetric]
    using frame len empty moves by auto
qed

theorem recursively_bipartition_block_frame_witness:
  "wf_phg example_phg \<and> (0::int) \<le> 2 \<and> (2::int) \<le> 4 \<and>
   phg_part_ids example_phg = [0, 0] \<and>
   phg_part_ids (fst (recursively_bipartition_block correctly_rounded_libm example_bisector (\<lambda>w c. c) example_phg
          example_context4 0 0 2 example_info (1 / 2))) = [0, 1] \<and>
   initialNumNodes (fst (phg_extract 2 True False example_phg)) = 0 \<and>
   recursively_bipartition_block correctly_rounded_libm example_bisector (\<lambda>w c. c) example_phg example_context4
     2 2 4 example_info (1 / 2) = (example_phg, [Extract 2 True False])"
proof -
  have h: "(0::int) \<le> 2" "(2::int) \<le> 4" by simp_all
  show ?thesis
    using recursively_bipartition_block_frame [OF wf_example_phg h(1), of correctly_rounded_libm example_bisector "\<lambda>w c. c"
        example_context4 0 example_info "1 / 2"]
      recursively_bipartition_block_frame [OF wf_example_phg h(2), of correctly_rounded_libm example_bisector "\<lambda>w c. c"
        example_context4 2 example_info "1 / 2"]
      wf_example_phg example_block_0_parts
    by (simp add: Let_def example_context4_fields example_extract_2 example_phg_fields)
qed

end
